theory Spec2Isabelle
  imports Main "HOL-Library.Sublist" "HOL-Library.AList" "HOL-Library.Multiset"
begin

section \<open>File discovery: getMatches\<close>

text \<open>
  \<^verbatim>\<open>getMatches(includes, excludes []string) []string\<close> calls two functions of Go's
  standard library, \<^verbatim>\<open>filepath.Glob\<close> (the paths on disk that match a pattern) and
  \<^verbatim>\<open>filepath.Match\<close> (does a name match a pattern). Both are parameters of the model:
  \<open>Glob\<close> returns the list the library returns, \<open>Match\<close> its boolean (the error
  results of both are dropped by the source).

  The loop over the matches of one include pattern carries the label \<^verbatim>\<open>INCLUDE\<close>, and
  both inner loops leave through \<^verbatim>\<open>break INCLUDE\<close>: in Go that ends the labelled loop,
  so the remaining matches of the pattern are not visited. \<open>include_loop\<close> is that
  labelled loop, with the accumulator \<open>all\<close>.
\<close>

fun include_loop ::
  "(string \<Rightarrow> string \<Rightarrow> bool) \<Rightarrow> string list \<Rightarrow> string list \<Rightarrow> string list \<Rightarrow> string list"
where
  "include_loop Match excludes [] all = all"
| "include_loop Match excludes (match # matches) all =
     (if list_ex (\<lambda>exclude. Match exclude match) excludes then all
      else if list_ex (\<lambda>existing. existing = match) all then all
      else include_loop Match excludes matches (all @ [match]))"

definition getMatches ::
  "(string \<Rightarrow> string list) \<Rightarrow> (string \<Rightarrow> string \<Rightarrow> bool) \<Rightarrow> string list \<Rightarrow> string list \<Rightarrow> string list"
where
  "getMatches Glob Match includes excludes =
     foldl (\<lambda>all include. include_loop Match excludes (Glob include) all) [] includes"

text \<open>
  A directory to run \<open>getMatches\<close> on. \<open>star_match\<close> is \<^verbatim>\<open>filepath.Match\<close> for
  patterns made of literal characters and \<^verbatim>\<open>*\<close> (any run of characters other than the
  separator); \<open>dir_Glob\<close> is \<^verbatim>\<open>filepath.Glob\<close> over a directory given by the sorted
  list of its names.
\<close>

fun star_match :: "string \<Rightarrow> string \<Rightarrow> bool" where
  "star_match [] name = (name = [])"
| "star_match (c # pattern) name =
     (if c = CHR ''*''
      then list_ex (\<lambda>k. CHR ''/'' \<notin> set (take k name) \<and> star_match pattern (drop k name))
             [0 ..< Suc (length name)]
      else (case name of [] \<Rightarrow> False | d # rest \<Rightarrow> c = d \<and> star_match pattern rest))"

definition dir_Glob :: "string list \<Rightarrow> string \<Rightarrow> string list" where
  "dir_Glob names pattern = filter (star_match pattern) names"

section \<open>The file input operator\<close>

subsection \<open>Files, readers and the persister\<close>

text \<open>
  Byte sequences (\<^verbatim>\<open>[]byte\<close>) are lists of characters, one character a byte. The file
  system is the environment of the operator: a partial map from paths to files.
\<close>

type_synonym bytes = string

record os_file =
  content :: bytes
  mtime :: int

type_synonym filesystem = "string \<rightharpoonup> os_file"

datatype error = OpenError | LoadError | JSONError string

text \<open>
  Modelled from the spec: the \<^verbatim>\<open>FileReader\<close> type, whose declaration is not among the
  sources. Section 3 gives its state: the path, the content fingerprint, the last confirmed
  byte offset and the last modification time observed. The per-reader lock is left out:
  the model runs the code of the poll loop sequentially.
\<close>

record FileReader =
  Path :: string
  Fingerprint :: bytes
  Offset :: int
  ModTime :: int

text \<open>
  Modelled from the spec: \<^verbatim>\<open>NewFileReader(path, f)\<close>, not among the sources, returns a
  reader for the path that has not looked at the file yet.
\<close>

definition NewFileReader :: "string \<Rightarrow> FileReader" where
  "NewFileReader path = \<lparr>Path = path, Fingerprint = [], Offset = 0, ModTime = 0\<rparr>"

text \<open>
  Modelled from the spec: \<^verbatim>\<open>Fingerprint.Matches\<close>, not among the sources. Section 4.6:
  two fingerprints match when one is a prefix of the other and the shorter is non-empty.
\<close>

definition Matches :: "bytes \<Rightarrow> bytes \<Rightarrow> bool" where
  "Matches a b = (a \<noteq> [] \<and> b \<noteq> [] \<and> (prefix a b \<or> prefix b a))"

text \<open>
  Modelled from the spec: \<^verbatim>\<open>FileReader.Initialize(startAtBeginning)\<close>, not among the
  sources. It opens the file (the error of a file that cannot be opened is returned),
  reads the fingerprint, the first \<open>fingerprintBytes\<close> bytes of the file or the whole
  file if shorter, and positions the reader: at the beginning when the flag is set, at the
  end of the file otherwise (section 4.6, poll loop).
\<close>

definition Initialize :: "filesystem \<Rightarrow> nat \<Rightarrow> bool \<Rightarrow> FileReader \<Rightarrow> error + FileReader" where
  "Initialize fs fpBytes atBeginning r =
     (case fs (Path r) of
        None \<Rightarrow> Inl OpenError
      | Some fl \<Rightarrow>
          Inr (r\<lparr>Fingerprint := take fpBytes (content fl),
                 Offset := (if atBeginning then 0 else int (length (content fl))),
                 ModTime := mtime fl\<rparr>))"

text \<open>
  Modelled from the spec: \<^verbatim>\<open>FileReader.ReadToEnd(ctx)\<close>, not among the sources. It
  opens the file at the reader's path, reads from the last offset to the end and advances
  the offset; a file that cannot be opened leaves the reader as it is. The entries it
  emits are not part of this model.
\<close>

definition ReadToEnd :: "filesystem \<Rightarrow> FileReader \<Rightarrow> FileReader" where
  "ReadToEnd fs r =
     (case fs (Path r) of
        None \<Rightarrow> r
      | Some fl \<Rightarrow> r\<lparr>Offset := int (length (content fl)), ModTime := mtime fl\<rparr>)"

text \<open>
  Modelled from the spec: the persister (\<^verbatim>\<open>helper.Persister\<close>), not among the sources.
  Section 6: \<^verbatim>\<open>Load\<close> populates an in-memory view from durable storage, \<^verbatim>\<open>Get\<close> reads
  the view, \<^verbatim>\<open>Set\<close> stages a write in it, \<^verbatim>\<open>Sync\<close> commits the staged writes. \<^verbatim>\<open>Load\<close>
  is the one operation of the four that returns an error; \<open>readable\<close> says whether the
  durable storage can be read. The stored values are sequences over \<open>'b\<close>, the alphabet
  that the JSON encoder writes.
\<close>

record 'b Persister =
  cache :: "string \<rightharpoonup> 'b list"
  durable :: "string \<rightharpoonup> 'b list"
  readable :: bool

definition Load :: "'b Persister \<Rightarrow> error + 'b Persister" where
  "Load p = (if readable p then Inr (p\<lparr>cache := durable p\<rparr>) else Inl LoadError)"

definition Get :: "'b Persister \<Rightarrow> string \<Rightarrow> 'b list option" where
  "Get p key = cache p key"

definition Set_key :: "'b Persister \<Rightarrow> string \<Rightarrow> 'b list \<Rightarrow> 'b Persister" where
  "Set_key p key val = p\<lparr>cache := (cache p)(key \<mapsto> val)\<rparr>"

definition Sync :: "'b Persister \<Rightarrow> 'b Persister" where
  "Sync p = p\<lparr>durable := cache p\<rparr>"

text \<open>
  \<^verbatim>\<open>encoding/json\<close> belongs to Go's standard library and is a parameter of the model:
  \<open>encodeInt\<close> and \<open>encodeReader\<close> are \<^verbatim>\<open>Encoder.Encode\<close> at an \<^verbatim>\<open>int\<close> and at a
  \<^verbatim>\<open>*FileReader\<close>, returning the error or what is written to the buffer; \<open>decodeInt\<close> and
  \<open>decodeReader\<close> are \<^verbatim>\<open>Decoder.Decode\<close> into an \<^verbatim>\<open>int\<close> and into a given
  \<^verbatim>\<open>*FileReader\<close>, returning the error or the decoded value with the rest of the input.
\<close>

record 'b json =
  encodeInt :: "int \<Rightarrow> error + 'b list"
  encodeReader :: "FileReader \<Rightarrow> error + 'b list"
  decodeInt :: "'b list \<Rightarrow> error + int \<times> 'b list"
  decodeReader :: "'b list \<Rightarrow> FileReader \<Rightarrow> error + FileReader \<times> 'b list"

subsection \<open>The operator\<close>

text \<open>
  The fields of \<^verbatim>\<open>InputOperator\<close> that the functions below read or write.
  \<^verbatim>\<open>knownFiles\<close> is a \<^verbatim>\<open>map[string]*FileReader\<close>: the \<^verbatim>\<open>FileReader\<close> objects live in the
  store \<open>readers\<close>, a pointer is an index into it, and the map is an association list
  from paths to pointers whose order is the order in which a \<^verbatim>\<open>range\<close> loop visits the
  map (Go leaves it unspecified). \<open>reading\<close> lists the readers of the read-to-end
  goroutines launched and not yet waited for (the wait group), and \<open>logs\<close> the messages
  written to the logger.
\<close>

record 'b InputOperator =
  Include :: "string list"
  Exclude :: "string list"
  persist :: "'b Persister"
  knownFiles :: "(string \<times> nat) list"
  startAtBeginning :: bool
  fingerprintBytes :: nat
  readers :: "FileReader list"
  reading :: "nat list"
  logs :: "string list"

text \<open>
  The loop of \<^verbatim>\<open>newFileReader\<close> over the known files: at the first reader whose
  fingerprint matches, the reader's path is set, the reader replaces \<^verbatim>\<open>newReader\<close>, its
  old key is deleted and the loop ends.
\<close>

fun rename_loop ::
  "string \<Rightarrow> bytes \<Rightarrow> (string \<times> nat) list \<Rightarrow> nat \<Rightarrow> 'b InputOperator \<Rightarrow> nat \<times> 'b InputOperator"
where
  "rename_loop path fp [] newReader f = (newReader, f)"
| "rename_loop path fp ((oldPath, reader) # rest) newReader f =
     (if Matches fp (Fingerprint (readers f ! reader))
      then (reader,
            f\<lparr>readers := (readers f)[reader := (readers f ! reader)\<lparr>Path := path\<rparr>],
              knownFiles := AList.delete oldPath (knownFiles f)\<rparr>)
      else rename_loop path fp rest newReader f)"

definition newFileReader ::
  "filesystem \<Rightarrow> string \<Rightarrow> bool \<Rightarrow> 'b InputOperator \<Rightarrow> error + nat \<times> 'b InputOperator"
where
  "newFileReader fs path firstCheck f =
     (case Initialize fs (fingerprintBytes f) (\<not> firstCheck \<or> startAtBeginning f)
             (NewFileReader path) of
        Inl err \<Rightarrow> Inl err
      | Inr initialized \<Rightarrow>
          (case rename_loop path (Fingerprint initialized) (knownFiles f)
                  (length (readers f)) (f\<lparr>readers := readers f @ [initialized]\<rparr>) of
             (newReader, f') \<Rightarrow>
               Inr (newReader, f'\<lparr>knownFiles := AList.update path newReader (knownFiles f')\<rparr>)))"

definition checkPath :: "filesystem \<Rightarrow> string \<Rightarrow> bool \<Rightarrow> 'b InputOperator \<Rightarrow> 'b InputOperator" where
  "checkPath fs path firstCheck f =
     (case map_of (knownFiles f) path of
        Some reader \<Rightarrow> f\<lparr>reading := reading f @ [reader]\<rparr>
      | None \<Rightarrow>
          (case newFileReader fs path firstCheck f of
             Inl err \<Rightarrow> f\<lparr>logs := logs f @ [''Failed to create new reader'']\<rparr>
           | Inr (reader, f') \<Rightarrow>
               f'\<lparr>knownFiles := AList.update path reader (knownFiles f'),
                  reading := reading f' @ [reader]\<rparr>))"

definition knownFilesKey :: string where
  "knownFilesKey = ''knownFiles''"

fun encode_readers :: "'b json \<Rightarrow> FileReader list \<Rightarrow> 'b list \<Rightarrow> error + 'b list" where
  "encode_readers enc [] buf = Inr buf"
| "encode_readers enc (fileReader # rest) buf =
     (case encodeReader enc fileReader of
        Inl err \<Rightarrow> Inl err
      | Inr written \<Rightarrow> encode_readers enc rest (buf @ written))"

definition syncKnownFiles :: "'b json \<Rightarrow> 'b InputOperator \<Rightarrow> 'b InputOperator" where
  "syncKnownFiles enc f =
     (case encodeInt enc (int (length (knownFiles f))) of
        Inl err \<Rightarrow> f\<lparr>logs := logs f @ [''Failed to encode known files'']\<rparr>
      | Inr buf \<Rightarrow>
          (case encode_readers enc (map (\<lambda>(path, reader). readers f ! reader) (knownFiles f)) buf of
             Inl err \<Rightarrow> f\<lparr>logs := logs f @ [''Failed to encode known files'']\<rparr>
           | Inr buf' \<Rightarrow> f\<lparr>persist := Sync (Set_key (persist f) knownFilesKey buf')\<rparr>))"

text \<open>
  \<^verbatim>\<open>loadKnownFiles\<close> returns its error, if any, and leaves the operator as far as it got:
  the result is the pair of both.
\<close>

fun decode_loop ::
  "'b json \<Rightarrow> nat \<Rightarrow> 'b list \<Rightarrow> 'b InputOperator \<Rightarrow> error option \<times> 'b InputOperator"
where
  "decode_loop dec 0 encoded f = (None, f)"
| "decode_loop dec (Suc n) encoded f =
     (case decodeReader dec encoded (NewFileReader []) of
        Inl err \<Rightarrow> (Some err, f)
      | Inr (newReader, rest) \<Rightarrow>
          decode_loop dec n rest
            (f\<lparr>readers := readers f @ [newReader],
               knownFiles := AList.update (Path newReader) (length (readers f)) (knownFiles f)\<rparr>))"

definition loadKnownFiles :: "'b json \<Rightarrow> 'b InputOperator \<Rightarrow> error option \<times> 'b InputOperator" where
  "loadKnownFiles dec f =
     (case Load (persist f) of
        Inl err \<Rightarrow> (Some err, f)
      | Inr loaded \<Rightarrow>
          (case Get loaded knownFilesKey of
             None \<Rightarrow> (None, f\<lparr>persist := loaded, knownFiles := []\<rparr>)
           | Some encoded \<Rightarrow>
               (case decodeInt dec encoded of
                  Inl err \<Rightarrow> (Some (JSONError ''decoding file count''), f\<lparr>persist := loaded\<rparr>)
                | Inr (knownFileCount, rest) \<Rightarrow>
                    decode_loop dec (nat knownFileCount) rest
                      (f\<lparr>persist := loaded, knownFiles := []\<rparr>))))"

text \<open>
  One iteration of the loop of \<^verbatim>\<open>pollForNewFiles\<close>, after the ticker has fired: \<open>fs\<close>
  is the file system at that tick and \<open>Glob fs\<close> is \<^verbatim>\<open>filepath.Glob\<close> on it. The loop runs
  until the context is cancelled: the list of file systems gives the ticks that fire
  before that.
\<close>

definition poll_tick ::
  "'b json \<Rightarrow> (filesystem \<Rightarrow> string \<Rightarrow> string list) \<Rightarrow> (string \<Rightarrow> string \<Rightarrow> bool) \<Rightarrow>
   filesystem \<Rightarrow> bool \<Rightarrow> 'b InputOperator \<Rightarrow> 'b InputOperator"
where
  "poll_tick enc Glob Match fs firstCheck f =
     (let f1 = syncKnownFiles enc f;
          matches = getMatches (Glob fs) Match (Include f1) (Exclude f1);
          f2 = (if firstCheck \<and> length matches = 0
                then f1\<lparr>logs := logs f1 @ [''no files match the configured include patterns'']\<rparr>
                else f1)
      in foldl (\<lambda>f' match. checkPath fs match firstCheck f') f2 matches)"

fun pollForNewFiles ::
  "'b json \<Rightarrow> (filesystem \<Rightarrow> string \<Rightarrow> string list) \<Rightarrow> (string \<Rightarrow> string \<Rightarrow> bool) \<Rightarrow>
   filesystem list \<Rightarrow> bool \<Rightarrow> 'b InputOperator \<Rightarrow> 'b InputOperator"
where
  "pollForNewFiles enc Glob Match [] firstCheck f = f"
| "pollForNewFiles enc Glob Match (fs # ticks) firstCheck f =
     pollForNewFiles enc Glob Match ticks False (poll_tick enc Glob Match fs firstCheck f)"

text \<open>
  \<^verbatim>\<open>Stop\<close>: the loop is cancelled, \<^verbatim>\<open>f.wg.Wait()\<close> returns when every read-to-end launched
  has returned, and the known files are persisted. \<open>finish_read\<close> is one read-to-end
  goroutine running to its end on its reader, \<open>wait_reads\<close> the wait for all of them.
\<close>

definition finish_read :: "filesystem \<Rightarrow> nat \<Rightarrow> 'b InputOperator \<Rightarrow> 'b InputOperator" where
  "finish_read fs reader f =
     f\<lparr>readers := (readers f)[reader := ReadToEnd fs (readers f ! reader)],
       reading := remove1 reader (reading f)\<rparr>"

fun wait_reads :: "filesystem \<Rightarrow> nat list \<Rightarrow> 'b InputOperator \<Rightarrow> 'b InputOperator" where
  "wait_reads fs [] f = f"
| "wait_reads fs (reader # rest) f = wait_reads fs rest (finish_read fs reader f)"

definition Stop :: "'b json \<Rightarrow> filesystem \<Rightarrow> 'b InputOperator \<Rightarrow> 'b InputOperator" where
  "Stop enc fs f = syncKnownFiles enc (wait_reads fs (reading f) f)"

text \<open>
  What the program sees of \<^verbatim>\<open>knownFiles\<close>: the map from each path to the reader that
  its pointer refers to.
\<close>

definition known :: "'b InputOperator \<Rightarrow> string \<rightharpoonup> FileReader" where
  "known f = map_of (map (\<lambda>(path, reader). (path, readers f ! reader)) (knownFiles f))"

text \<open>
  What one iteration of the loop of \<^verbatim>\<open>loadKnownFiles\<close> does with the reader it has
  decoded: a new object, stored under its own path.
\<close>

definition add_decoded :: "'b InputOperator \<Rightarrow> FileReader \<Rightarrow> 'b InputOperator" where
  "add_decoded f r =
     f\<lparr>readers := readers f @ [r],
       knownFiles := AList.update (Path r) (length (readers f)) (knownFiles f)\<rparr>"

subsection \<open>The invariant of the known files, and the states of a run\<close>

text \<open>
  The invariant of \<^verbatim>\<open>knownFiles\<close>: each pointer of the map refers to an object of the
  store whose \<^verbatim>\<open>Path\<close> is the key it is stored under, no object is stored under two keys,
  and (the map being a map) no key occurs twice.
\<close>

definition knownFiles_inv :: "'b InputOperator \<Rightarrow> bool" where
  "knownFiles_inv f =
     (list_all (\<lambda>(path, reader). reader < length (readers f) \<and> Path (readers f ! reader) = path)
        (knownFiles f)
      \<and> distinct (map snd (knownFiles f))
      \<and> distinct (map fst (knownFiles f)))"

text \<open>
  The states of the operator in a run. \<^verbatim>\<open>Start\<close> loads the known files into an operator
  as it was built and fails if the load does; from then on the poll loop persists the
  known files, logs its warning and checks paths, a read-to-end that was launched runs to
  its end at any moment, and the next \<^verbatim>\<open>range\<close> loop may visit the map in another order.
\<close>

inductive reachable :: "'b json \<Rightarrow> 'b InputOperator \<Rightarrow> bool" for js :: "'b json" where
  started: "loadKnownFiles js built = (None, f) \<Longrightarrow> reachable js f"
| synced: "reachable js f \<Longrightarrow> reachable js (syncKnownFiles js f)"
| warned: "reachable js f \<Longrightarrow> reachable js (f\<lparr>logs := logs f @ [message]\<rparr>)"
| checked: "reachable js f \<Longrightarrow> reachable js (checkPath fs path firstCheck f)"
| finished: "reachable js f \<Longrightarrow> reader \<in> set (reading f) \<Longrightarrow> reachable js (finish_read fs reader f)"
| ranged: "reachable js f \<Longrightarrow> mset order = mset (knownFiles f) \<Longrightarrow>
     reachable js (f\<lparr>knownFiles := order\<rparr>)"

text \<open>
  What the round trip through the persister asks of \<^verbatim>\<open>encoding/json\<close>: encoding an
  \<^verbatim>\<open>int\<close> or a reader succeeds, and decoding what was written, whatever follows it in the
  input, gives the value back and leaves what follows. Readers are decoded into a reader
  made by \<^verbatim>\<open>NewFileReader("", f)\<close>, as \<^verbatim>\<open>loadKnownFiles\<close> does.
\<close>

definition json_lossless :: "'b json \<Rightarrow> bool" where
  "json_lossless js =
     ((\<forall>n. \<exists>written. encodeInt js n = Inr written \<and>
          (\<forall>rest. decodeInt js (written @ rest) = Inr (n, rest)))
      \<and> (\<forall>r. \<exists>written. encodeReader js r = Inr written \<and>
          (\<forall>rest. decodeReader js (written @ rest) (NewFileReader []) = Inr (r, rest))))"

subsection \<open>Concrete collaborators and states\<close>

text \<open>
  To run the operator on concrete inputs: a stand-in for \<^verbatim>\<open>encoding/json\<close> that writes
  each document as one token and reads it back (\<open>token_json\<close>), an encoder that returns
  an error at every reader (\<open>refusing_json\<close>), \<^verbatim>\<open>filepath.Glob\<close> on a file system whose
  names are among \<open>names\<close> (\<open>ls_Glob\<close>), an operator that has just been built
  (\<open>fresh_operator\<close>), and one that knows the file \<^verbatim>\<open>a.log\<close> and has read its single
  byte (\<open>tailing_operator\<close>).
\<close>

datatype token = TInt int | TReader FileReader

definition token_json :: "token json" where
  "token_json =
     \<lparr>encodeInt = (\<lambda>n. Inr [TInt n]),
      encodeReader = (\<lambda>r. Inr [TReader r]),
      decodeInt = (\<lambda>input. case input of
                      TInt n # rest \<Rightarrow> Inr (n, rest)
                    | _ \<Rightarrow> Inl (JSONError ''cannot unmarshal into int'')),
      decodeReader = (\<lambda>input target. case input of
                      TReader r # rest \<Rightarrow> Inr (r, rest)
                    | _ \<Rightarrow> Inl (JSONError ''cannot unmarshal into FileReader''))\<rparr>"

definition refusing_json :: "token json" where
  "refusing_json = token_json\<lparr>encodeReader := (\<lambda>r. Inl (JSONError ''unsupported value''))\<rparr>"

definition ls_Glob :: "string list \<Rightarrow> filesystem \<Rightarrow> string \<Rightarrow> string list" where
  "ls_Glob names fs pattern = filter (\<lambda>name. fs name \<noteq> None \<and> star_match pattern name) names"

definition fresh_operator :: "token InputOperator" where
  "fresh_operator =
     \<lparr>Include = [''*.log''], Exclude = [],
      persist = \<lparr>cache = Map.empty, durable = Map.empty, readable = True\<rparr>,
      knownFiles = [], startAtBeginning = False, fingerprintBytes = 1000,
      readers = [], reading = [], logs = []\<rparr>"

definition tailing_operator :: "token InputOperator" where
  "tailing_operator =
     fresh_operator
       \<lparr>knownFiles := [(''a.log'', 0)],
        readers := [\<lparr>Path = ''a.log'', Fingerprint = ''x'', Offset = 1, ModTime = 1\<rparr>]\<rparr>"

definition disk_a :: filesystem where
  "disk_a = [''a.log'' \<mapsto> \<lparr>content = ''x'', mtime = 1\<rparr>]"

definition disk_rotated :: filesystem where
  "disk_rotated = [''a.1.log'' \<mapsto> \<lparr>content = ''xy'', mtime = 2\<rparr>]"

subsection \<open>The persisted documents\<close>

text \<open>
  Modelled from the spec: how a \<^verbatim>\<open>FileReader\<close> is written by \<^verbatim>\<open>encoding/json\<close>, which
  the declaration of the type, not among the sources, decides. Section 6: the persisted
  value is a length-prefixed list of records
  \<^verbatim>\<open>{ path: string, fingerprint: bytes, offset: int64, mtime: int64 }\<close>, the encoding is
  self-describing, and readers must tolerate additional fields. The encoder writes one
  document for each value it is given; the decoder reads the next document of its input
  into its target: a number into an \<^verbatim>\<open>int\<close>, the fields of an object into the fields
  of the reader of the same name, leaving the other fields of the reader as they are and
  passing over the fields it does not know. A document of another kind, or a field of
  another kind than the reader's, is an error, and so is the end of the input.
\<close>

datatype json_doc = JNumber int | JString string | JObject "(string \<times> json_doc) list"

definition marshal_FileReader :: "FileReader \<Rightarrow> json_doc" where
  "marshal_FileReader r =
     JObject [(''path'', JString (Path r)), (''fingerprint'', JString (Fingerprint r)),
              (''offset'', JNumber (Offset r)), (''mtime'', JNumber (ModTime r))]"

definition unmarshal_field :: "string \<times> json_doc \<Rightarrow> FileReader \<Rightarrow> error + FileReader" where
  "unmarshal_field member r =
     (if fst member = ''path''
      then (case snd member of JString s \<Rightarrow> Inr (r\<lparr>Path := s\<rparr>)
            | _ \<Rightarrow> Inl (JSONError ''cannot unmarshal into FileReader.path''))
      else if fst member = ''fingerprint''
      then (case snd member of JString s \<Rightarrow> Inr (r\<lparr>Fingerprint := s\<rparr>)
            | _ \<Rightarrow> Inl (JSONError ''cannot unmarshal into FileReader.fingerprint''))
      else if fst member = ''offset''
      then (case snd member of JNumber n \<Rightarrow> Inr (r\<lparr>Offset := n\<rparr>)
            | _ \<Rightarrow> Inl (JSONError ''cannot unmarshal into FileReader.offset''))
      else if fst member = ''mtime''
      then (case snd member of JNumber n \<Rightarrow> Inr (r\<lparr>ModTime := n\<rparr>)
            | _ \<Rightarrow> Inl (JSONError ''cannot unmarshal into FileReader.mtime''))
      else Inr r)"

fun unmarshal_FileReader :: "(string \<times> json_doc) list \<Rightarrow> FileReader \<Rightarrow> error + FileReader" where
  "unmarshal_FileReader [] r = Inr r"
| "unmarshal_FileReader (member # members) r =
     (case unmarshal_field member r of
        Inl err \<Rightarrow> Inl err
      | Inr r' \<Rightarrow> unmarshal_FileReader members r')"

definition document_json :: "json_doc json" where
  "document_json =
     \<lparr>encodeInt = (\<lambda>n. Inr [JNumber n]),
      encodeReader = (\<lambda>r. Inr [marshal_FileReader r]),
      decodeInt = (\<lambda>input. case input of
                      JNumber n # rest \<Rightarrow> Inr (n, rest)
                    | _ \<Rightarrow> Inl (JSONError ''cannot unmarshal into int'')),
      decodeReader = (\<lambda>input target. case input of
                      JObject members # rest \<Rightarrow>
                        (case unmarshal_FileReader members target of
                           Inl err \<Rightarrow> Inl err
                         | Inr r \<Rightarrow> Inr (r, rest))
                    | _ \<Rightarrow> Inl (JSONError ''cannot unmarshal into FileReader''))\<rparr>"

text \<open>
  An operator that knows two files, and the operator built anew after a restart on the
  storage the first has persisted to: its in-memory view is empty, and what it holds of
  known files is not what was persisted.
\<close>

definition two_files_operator :: "json_doc InputOperator" where
  "two_files_operator =
     \<lparr>Include = [''*.log''], Exclude = [],
      persist = \<lparr>cache = Map.empty, durable = Map.empty, readable = True\<rparr>,
      knownFiles = [(''b.log'', 1), (''a.log'', 0)],
      startAtBeginning = False, fingerprintBytes = 1000,
      readers = [\<lparr>Path = ''a.log'', Fingerprint = ''x'', Offset = 1, ModTime = 1\<rparr>,
                 \<lparr>Path = ''b.log'', Fingerprint = ''yz'', Offset = 7, ModTime = 3\<rparr>],
      reading = [], logs = []\<rparr>"

definition restarted_operator :: "json_doc InputOperator" where
  "restarted_operator =
     \<lparr>Include = [''*.log''], Exclude = [],
      persist = \<lparr>cache = Map.empty,
                 durable = durable (persist (syncKnownFiles document_json two_files_operator)),
                 readable = True\<rparr>,
      knownFiles = [(''stale.log'', 0)],
      startAtBeginning = False, fingerprintBytes = 1000,
      readers = [\<lparr>Path = ''stale.log'', Fingerprint = ''q'', Offset = 9, ModTime = 0\<rparr>],
      reading = [], logs = []\<rparr>"

section \<open>The copy operator\<close>

text \<open>
  Modelled from the spec: the \<^verbatim>\<open>entry.Entry\<close> type, whose declaration is not among the
  sources. Section 3: an entry is a timestamp, a record (a tree of string-keyed maps,
  arrays and scalars) and a labels mapping from strings to strings. A map of the record
  is the list of its keys and values; a \<^verbatim>\<open>nil\<close> map of labels is the empty map.
\<close>

datatype val = VString string | VInt int | VMap "(string \<times> val) list" | VList "val list"

record Entry =
  Timestamp :: int
  Record :: "(string \<times> val) list"
  Labels :: "string \<rightharpoonup> string"

text \<open>
  Modelled from the spec: \<^verbatim>\<open>copyMap\<close>, not among the sources, returns a deep copy of a
  record (sections 3 and 4.5): every map and array of the tree is built anew.
\<close>

primrec copyValue :: "val \<Rightarrow> val" where
  "copyValue (VString s) = VString s"
| "copyValue (VInt n) = VInt n"
| "copyValue (VMap m) = VMap (map (map_prod id copyValue) m)"
| "copyValue (VList vs) = VList (map copyValue vs)"

definition copyMap :: "(string \<times> val) list \<Rightarrow> (string \<times> val) list" where
  "copyMap m = map (map_prod id copyValue) m"

text \<open>
  \<^verbatim>\<open>copyEntry\<close> starts from the zero value \<^verbatim>\<open>entry.Entry{}\<close> and assigns the timestamp and
  the copy of the record; the labels stay those of the zero value.
\<close>

definition copyEntry :: "Entry \<Rightarrow> Entry" where
  "copyEntry e = \<lparr>Timestamp = Timestamp e, Record = copyMap (Record e), Labels = Map.empty\<rparr>"

text \<open>
  A Go channel of entries: all that was ever sent on it, in order, how much of that the
  receiver has taken, the capacity of the buffer (0 for an unbuffered channel), whether it
  was closed, and whether the receiver is blocked in a receive on it. What is queued is
  what was sent and not yet taken. A send goes through when the receiver is waiting, which
  is the only way on an unbuffered channel, or when the queue is shorter than the
  capacity; it blocks otherwise. A send to a waiting receiver hands the entry over: the
  receiver waits no more, and the entry is its to take at its next move.
\<close>

record chan =
  sent :: "Entry list"
  taken :: nat
  cap :: nat
  closed :: bool
  receiving :: bool

definition queued :: "chan \<Rightarrow> Entry list" where
  "queued c = drop (taken c) (sent c)"

definition has_room :: "chan \<Rightarrow> bool" where
  "has_room c = (receiving c \<or> length (sent c) - taken c < cap c)"

definition send_on :: "chan \<Rightarrow> Entry \<Rightarrow> chan" where
  "send_on c e = c\<lparr>sent := sent c @ [e], receiving := False\<rparr>"

text \<open>
  The goroutine of \<^verbatim>\<open>CopyPlugin.Start\<close>. Its state is the input channel of the plugin,
  the input channels of its outputs, the entry received and the index of the output that
  the inner loop is at (\<open>sending\<close>; \<open>None\<close> between two entries), and whether it has
  returned. \<open>Start_step\<close> is one move of the goroutine: a receive of a queued entry
  from the input, the start of its wait in the receive when nothing is queued, a send to
  the output the loop is at, the end of the inner loop, or the return when the input is
  closed and drained; \<open>None\<close> when it cannot move, blocked in a receive or in a send, or
  returned.
\<close>

record CopyPlugin =
  input :: chan
  outputs :: "chan list"
  sending :: "(Entry \<times> nat) option"
  returned :: bool

definition Start_step :: "CopyPlugin \<Rightarrow> CopyPlugin option" where
  "Start_step p =
     (if returned p then None
      else case sending p of
        None \<Rightarrow>
          (if taken (input p) < length (sent (input p))
           then Some (p\<lparr>input := (input p)\<lparr>taken := Suc (taken (input p))\<rparr>,
                        sending := Some (sent (input p) ! taken (input p), 0)\<rparr>)
           else if closed (input p) then Some (p\<lparr>returned := True\<rparr>)
           else if receiving (input p) then None
           else Some (p\<lparr>input := (input p)\<lparr>receiving := True\<rparr>\<rparr>))
      | Some (entry, i) \<Rightarrow>
          (if i < length (outputs p)
           then (if has_room (outputs p ! i)
                 then Some (p\<lparr>outputs := (outputs p)
                                [i := send_on (outputs p ! i) (copyEntry entry)],
                              sending := Some (entry, Suc i)\<rparr>)
                 else None)
           else Some (p\<lparr>sending := None\<rparr>)))"

fun Start_run :: "nat \<Rightarrow> CopyPlugin \<Rightarrow> CopyPlugin" where
  "Start_run 0 p = p"
| "Start_run (Suc n) p = (case Start_step p of None \<Rightarrow> p | Some p' \<Rightarrow> Start_run n p')"

text \<open>
  The moves of the other goroutines: the operator upstream sends an entry to the input or
  closes it; output \<open>j\<close> takes an entry queued for it, or starts to wait in its receive
  when nothing is queued.
\<close>

definition downstream_receives :: "nat \<Rightarrow> CopyPlugin \<Rightarrow> CopyPlugin" where
  "downstream_receives j p =
     p\<lparr>outputs := (outputs p)[j := (outputs p ! j)\<lparr>taken := Suc (taken (outputs p ! j))\<rparr>]\<rparr>"

definition downstream_waits :: "nat \<Rightarrow> CopyPlugin \<Rightarrow> CopyPlugin" where
  "downstream_waits j p =
     p\<lparr>outputs := (outputs p)[j := (outputs p ! j)\<lparr>receiving := True\<rparr>]\<rparr>"

definition started :: "CopyPlugin \<Rightarrow> bool" where
  "started p =
     (sending p = None \<and> \<not> returned p \<and> taken (input p) = 0
      \<and> list_all (\<lambda>output. sent output = []) (outputs p))"

inductive runs :: "CopyPlugin \<Rightarrow> CopyPlugin \<Rightarrow> bool" for p0 :: CopyPlugin where
  begun: "runs p0 p0"
| stepped: "runs p0 p \<Longrightarrow> Start_step p = Some p' \<Longrightarrow> runs p0 p'"
| upstream_sends: "runs p0 p \<Longrightarrow> has_room (input p) \<Longrightarrow>
     runs p0 (p\<lparr>input := send_on (input p) e\<rparr>)"
| upstream_closes: "runs p0 p \<Longrightarrow> runs p0 (p\<lparr>input := (input p)\<lparr>closed := True\<rparr>\<rparr>)"
| downstream: "runs p0 p \<Longrightarrow> j < length (outputs p) \<Longrightarrow>
     taken (outputs p ! j) < length (sent (outputs p ! j)) \<Longrightarrow>
     runs p0 (downstream_receives j p)"
| downstream_waiting: "runs p0 p \<Longrightarrow> j < length (outputs p) \<Longrightarrow>
     queued (outputs p ! j) = [] \<Longrightarrow>
     runs p0 (downstream_waits j p)"

definition consumed :: "CopyPlugin \<Rightarrow> Entry list" where
  "consumed p = take (taken (input p)) (sent (input p))"

text \<open>
  Two entries, a copy operator with two outputs whose queues hold one entry each and with
  both entries waiting in its own input queue, and the same operator with unbuffered
  outputs, the second of which is waiting in its receive.
\<close>

definition entry1 :: Entry where
  "entry1 = \<lparr>Timestamp = 1, Record = [(''message'', VString ''hello'')],
             Labels = [''decorated'' \<mapsto> ''foo'']\<rparr>"

definition entry2 :: Entry where
  "entry2 = \<lparr>Timestamp = 2, Record = [(''message'', VString ''world'')], Labels = Map.empty\<rparr>"

definition two_outputs :: CopyPlugin where
  "two_outputs =
     \<lparr>input = \<lparr>sent = [entry1, entry2], taken = 0, cap = 2, closed = False, receiving = False\<rparr>,
      outputs = [\<lparr>sent = [], taken = 0, cap = 1, closed = False, receiving = False\<rparr>,
                 \<lparr>sent = [], taken = 0, cap = 1, closed = False, receiving = False\<rparr>],
      sending = None, returned = False\<rparr>"

definition two_unbuffered_outputs :: CopyPlugin where
  "two_unbuffered_outputs =
     \<lparr>input = \<lparr>sent = [entry1, entry2], taken = 0, cap = 2, closed = False, receiving = False\<rparr>,
      outputs = [\<lparr>sent = [], taken = 0, cap = 0, closed = False, receiving = False\<rparr>,
                 \<lparr>sent = [], taken = 0, cap = 0, closed = False, receiving = True\<rparr>],
      sending = None, returned = False\<rparr>"

text \<open>
  The invariant of the goroutine: between two entries every output has been sent the
  copies of the entries consumed; while the inner loop is at output \<open>i\<close> with the
  entry \<open>e\<close>, the entry is the last one consumed, the outputs before \<open>i\<close> have been
  sent its copy and the outputs from \<open>i\<close> on have not.
\<close>

definition copy_inv :: "CopyPlugin \<Rightarrow> bool" where
  "copy_inv p =
     (taken (input p) \<le> length (sent (input p)) \<and>
      (case sending p of
         None \<Rightarrow> (\<forall>j < length (outputs p). sent (outputs p ! j) = map copyEntry (consumed p))
       | Some (e, i) \<Rightarrow>
           i \<le> length (outputs p) \<and> consumed p \<noteq> [] \<and> e = last (consumed p) \<and>
           (\<forall>j < length (outputs p).
              sent (outputs p ! j) =
                map copyEntry (if j < i then consumed p else butlast (consumed p)))))"

subsection \<open>Building the copy operator\<close>

text \<open>
  Modelled from the spec: \<^verbatim>\<open>DefaultInputterConfig\<close> and its \<^verbatim>\<open>Build\<close>, not among the
  sources, which make the input queue of an operator. Section 4.5: transport between
  operators is an in-memory bounded queue, its capacity configurable per edge, 100 entries
  by default. \<open>Capacity\<close> is the configured capacity, \<open>None\<close> when the configuration
  gives none; the spec names no way for this \<^verbatim>\<open>Build\<close> to fail.
\<close>

record DefaultInputterConfig =
  Capacity :: "nat option"

definition DefaultInputterConfig_Build :: "DefaultInputterConfig \<Rightarrow> string + chan" where
  "DefaultInputterConfig_Build cfg =
     Inr \<lparr>sent = [], taken = 0,
          cap = (case Capacity cfg of None \<Rightarrow> 100 | Some n \<Rightarrow> n),
          closed = False, receiving = False\<rparr>"

text \<open>
  \<^verbatim>\<open>CopyConfig.Build\<close>. The plugins of the build context are inputters, each with its
  input channel, or not. \<^verbatim>\<open>DefaultPluginConfig.Build\<close> is not among the sources either:
  its result for the plugin's identifier, an error message or success, is the parameter
  \<open>DefaultPluginConfig_Build\<close>. The built plugin is the state in which its goroutine
  starts.
\<close>

datatype plugin = Inputter chan | NotInputter

datatype build_error =
    FailedToBuildDefaultPlugin string
  | NoOutputFound string
  | NotAnInputter string

record CopyConfig =
  PluginID :: string
  InputterConfig :: DefaultInputterConfig
  PluginOutputs :: "string list"
  Field :: string

fun outputs_loop ::
  "(string \<rightharpoonup> plugin) \<Rightarrow> string list \<Rightarrow> chan list \<Rightarrow> build_error + chan list"
where
  "outputs_loop Plugins [] outs = Inr outs"
| "outputs_loop Plugins (outputID # rest) outs =
     (case Plugins outputID of
        None \<Rightarrow> Inl (NoOutputFound outputID)
      | Some output \<Rightarrow>
          (case output of
             Inputter inputter \<Rightarrow> outputs_loop Plugins rest (outs @ [inputter])
           | NotInputter \<Rightarrow> Inl (NotAnInputter outputID)))"

definition CopyConfig_Build ::
  "(string \<Rightarrow> string + unit) \<Rightarrow> CopyConfig \<Rightarrow> (string \<rightharpoonup> plugin) \<Rightarrow> build_error + CopyPlugin"
where
  "CopyConfig_Build DefaultPluginConfig_Build c Plugins =
     (case DefaultPluginConfig_Build (PluginID c) of
        Inl err \<Rightarrow> Inl (FailedToBuildDefaultPlugin err)
      | Inr defaultPlugin \<Rightarrow>
          (case DefaultInputterConfig_Build (InputterConfig c) of
             Inl err \<Rightarrow> Inl (FailedToBuildDefaultPlugin err)
           | Inr defaultInputter \<Rightarrow>
               (case outputs_loop Plugins (PluginOutputs c) [] of
                  Inl err \<Rightarrow> Inl err
                | Inr outs \<Rightarrow>
                    Inr \<lparr>input = defaultInputter, outputs = outs,
                         sending = None, returned = False\<rparr>)))"

definition copy_config :: CopyConfig where
  "copy_config =
     \<lparr>PluginID = ''copy'', InputterConfig = \<lparr>Capacity = None\<rparr>,
      PluginOutputs = [''a'', ''b''], Field = []\<rparr>"

definition two_sinks :: "string \<rightharpoonup> plugin" where
  "two_sinks =
     [''a'' \<mapsto> Inputter \<lparr>sent = [], taken = 0, cap = 1, closed = False, receiving = False\<rparr>,
      ''b'' \<mapsto> Inputter \<lparr>sent = [], taken = 0, cap = 1, closed = False, receiving = False\<rparr>]"

section \<open>Properties of getMatches\<close>

lemma include_loop_mono: "set all \<subseteq> set (include_loop Match excludes matches all)"
proof (induction matches arbitrary: all)
  case Nil
  then show ?case by simp
next
  case (Cons m ms)
  have "set all \<subseteq> set (all @ [m])" by auto
  also have "\<dots> \<subseteq> set (include_loop Match excludes ms (all @ [m]))" by (rule Cons.IH)
  finally show ?case by simp
qed

lemma include_loop_sound:
  "x \<in> set (include_loop Match excludes matches all) \<Longrightarrow>
     x \<in> set all \<or> (x \<in> set matches \<and> \<not> list_ex (\<lambda>exclude. Match exclude x) excludes)"
proof (induction matches arbitrary: all)
  case Nil
  then show ?case by simp
next
  case (Cons m ms)
  show ?case
  proof (cases "list_ex (\<lambda>exclude. Match exclude m) excludes \<or> list_ex (\<lambda>existing. existing = m) all")
    case True
    with Cons.prems have "x \<in> set all" by (auto split: if_splits)
    then show ?thesis by simp
  next
    case False
    with Cons.prems have "x \<in> set (include_loop Match excludes ms (all @ [m]))" by simp
    from Cons.IH [OF this] False show ?thesis by auto
  qed
qed

lemma include_loop_distinct:
  "distinct all \<Longrightarrow> distinct (include_loop Match excludes matches all)"
  by (induction matches arbitrary: all) (auto simp: list_ex_iff)

lemma getMatches_sound:
  "distinct (getMatches Glob Match incs excludes) \<and>
   (x \<in> set (getMatches Glob Match incs excludes) \<longrightarrow>
      list_ex (\<lambda>include. x \<in> set (Glob include)) incs \<and>
      \<not> list_ex (\<lambda>exclude. Match exclude x) excludes)"
proof -
  have gen: "distinct acc \<Longrightarrow>
      distinct (foldl (\<lambda>all include. include_loop Match excludes (Glob include) all) acc incs) \<and>
      (x \<in> set (foldl (\<lambda>all include. include_loop Match excludes (Glob include) all) acc incs) \<longrightarrow>
         x \<in> set acc \<or>
         (list_ex (\<lambda>include. x \<in> set (Glob include)) incs \<and>
          \<not> list_ex (\<lambda>exclude. Match exclude x) excludes))" for acc
  proof (induction incs arbitrary: acc)
    case Nil
    then show ?case by simp
  next
    case (Cons i rest)
    have d: "distinct (include_loop Match excludes (Glob i) acc)"
      using Cons.prems by (rule include_loop_distinct)
    from Cons.IH [OF d] include_loop_sound [of x Match excludes "Glob i" acc]
    show ?case by auto
  qed
  from gen [of "[]"] show ?thesis by (simp add: getMatches_def)
qed

text \<open>
  C2. The claim: getMatches returns exactly the paths that match an include pattern and
  no exclude pattern, each once. In a directory holding \<^verbatim>\<open>a.log\<close> and \<^verbatim>\<open>b.log\<close>, with
  include \<^verbatim>\<open>*.log\<close> and exclude \<^verbatim>\<open>a.log\<close>, the path \<^verbatim>\<open>b.log\<close> is found by the include
  pattern and matches no exclude pattern, yet getMatches returns the empty list: the
  excluded \<^verbatim>\<open>a.log\<close> comes first and \<^verbatim>\<open>break INCLUDE\<close> ends the loop over the matches.
  The same happens at a path already collected: with includes \<^verbatim>\<open>a.log\<close>, \<^verbatim>\<open>*.log\<close> and
  no excludes, \<^verbatim>\<open>b.log\<close> is lost behind the duplicate \<^verbatim>\<open>a.log\<close>.
\<close>

theorem getMatches_drops_after_excluded:
  "getMatches (dir_Glob [''a.log'', ''b.log'']) star_match [''*.log''] [''a.log''] = []
   \<and> ''b.log'' \<in> set (dir_Glob [''a.log'', ''b.log''] ''*.log'')
   \<and> \<not> star_match ''a.log'' ''b.log''
   \<and> getMatches (dir_Glob [''a.log'', ''b.log'']) star_match [''a.log'', ''*.log''] [] = [''a.log'']"
  by (simp add: getMatches_def dir_Glob_def upt_rec)

section \<open>Properties of the file input operator\<close>

subsection \<open>Auxiliary facts\<close>

lemma set_update_subset: "set (AList.update k v al) \<subseteq> insert (k, v) (set al)"
  by (induction al) auto

lemma set_delete_subset: "set (AList.delete k al) \<subseteq> set al"
  by (auto simp: AList.delete_eq)

lemma rename_loop_no_match:
  "list_all (\<lambda>(k, a). \<not> Matches fp (Fingerprint (readers f ! a))) kf \<Longrightarrow>
     rename_loop path fp kf n f = (n, f)"
  by (induction kf) auto

lemma rename_loop_first_match:
  "list_ex (\<lambda>(k, a). Matches fp (Fingerprint (readers f ! a))) kf \<Longrightarrow>
     \<exists>oldPath b. (oldPath, b) \<in> set kf \<and> Matches fp (Fingerprint (readers f ! b)) \<and>
       rename_loop path fp kf n f =
         (b, f\<lparr>readers := (readers f)[b := (readers f ! b)\<lparr>Path := path\<rparr>],
               knownFiles := AList.delete oldPath (knownFiles f)\<rparr>)"
proof (induction kf)
  case Nil
  then show ?case by simp
next
  case (Cons p kf)
  obtain k a where p: "p = (k, a)" by (cases p)
  show ?case
  proof (cases "Matches fp (Fingerprint (readers f ! a))")
    case True
    with p show ?thesis by auto
  next
    case False
    with Cons.prems p have "list_ex (\<lambda>(k, a). Matches fp (Fingerprint (readers f ! a))) kf" by simp
    from Cons.IH [OF this] False p show ?thesis by auto
  qed
qed

lemma known_eq: "known f path = map_option (\<lambda>reader. readers f ! reader) (map_of (knownFiles f) path)"
  by (simp add: known_def map_of_map)

lemma Initialize_Some:
  "fs path = Some fl \<Longrightarrow>
     Initialize fs n b (NewFileReader path) =
       Inr \<lparr>Path = path, Fingerprint = take n (content fl),
            Offset = (if b then 0 else int (length (content fl))), ModTime = mtime fl\<rparr>"
  by (simp add: Initialize_def NewFileReader_def)

lemma encode_readers_fails:
  "list_ex (\<lambda>r. isl (encodeReader enc r)) rs \<Longrightarrow> isl (encode_readers enc rs buf)"
  by (induction rs arbitrary: buf) (auto split: sum.splits)

lemma rename_loop_persist: "rename_loop path fp kf n f = (r, f') \<Longrightarrow> persist f' = persist f"
  by (induction kf) (auto split: if_splits)

lemma newFileReader_persist: "newFileReader fs path fc f = Inr (r, f') \<Longrightarrow> persist f' = persist f"
  by (auto simp: newFileReader_def split: sum.splits prod.splits dest: rename_loop_persist)

lemma checkPath_persist: "persist (checkPath fs path fc f) = persist f"
  by (auto simp: checkPath_def split: option.splits sum.splits dest: newFileReader_persist)

lemma fold_checkPath_persist:
  "persist (foldl (\<lambda>f' match. checkPath fs match fc f') f matches) = persist f"
  by (induction matches arbitrary: f) (simp_all add: checkPath_persist)

lemma syncKnownFiles_reading: "reading (syncKnownFiles enc f) = reading f"
  by (simp add: syncKnownFiles_def split: sum.splits)

lemma reading_wait_reads: "reading (wait_reads fs rs f) = fold remove1 rs (reading f)"
  by (induction rs arbitrary: f) (simp_all add: finish_read_def)

lemma fold_remove1_append: "fold remove1 xs (xs @ ys) = ys"
  by (induction xs) simp_all

lemma knownFiles_inv_iff:
  "knownFiles_inv f \<longleftrightarrow>
     distinct (map fst (knownFiles f)) \<and>
     (\<forall>k a. map_of (knownFiles f) k = Some a \<longrightarrow> a < length (readers f) \<and> Path (readers f ! a) = k)"
proof
  assume "knownFiles_inv f"
  then show "distinct (map fst (knownFiles f)) \<and>
     (\<forall>k a. map_of (knownFiles f) k = Some a \<longrightarrow> a < length (readers f) \<and> Path (readers f ! a) = k)"
    by (auto simp: knownFiles_inv_def list_all_iff dest!: map_of_SomeD)
next
  assume r: "distinct (map fst (knownFiles f)) \<and>
     (\<forall>k a. map_of (knownFiles f) k = Some a \<longrightarrow> a < length (readers f) \<and> Path (readers f ! a) = k)"
  then have d: "distinct (map fst (knownFiles f))" by simp
  have p: "a < length (readers f) \<and> Path (readers f ! a) = k" if "(k, a) \<in> set (knownFiles f)" for k a
    using r that by simp
  have "inj_on snd (set (knownFiles f))"
  proof (rule inj_onI)
    fix x y assume xy: "x \<in> set (knownFiles f)" "y \<in> set (knownFiles f)" "snd x = snd y"
    obtain k a k' a' where e: "x = (k, a)" "y = (k', a')" by (cases x, cases y)
    with xy p [of k a] p [of k' a'] show "x = y" by simp
  qed
  moreover have "distinct (knownFiles f)" using d by (rule distinct_map [THEN iffD1, THEN conjunct1])
  ultimately have "distinct (map snd (knownFiles f))" by (simp add: distinct_map)
  with d p show "knownFiles_inv f" by (auto simp: knownFiles_inv_def list_all_iff)
qed

lemma rename_loop_cases:
  "rename_loop path fp kf n f = (n, f) \<or>
   (\<exists>oldPath b. (oldPath, b) \<in> set kf \<and>
       rename_loop path fp kf n f =
         (b, f\<lparr>readers := (readers f)[b := (readers f ! b)\<lparr>Path := path\<rparr>],
               knownFiles := AList.delete oldPath (knownFiles f)\<rparr>))"
proof (induction kf)
  case Nil
  then show ?case by simp
next
  case (Cons p kf)
  obtain k a where p: "p = (k, a)" by (cases p)
  show ?case
  proof (cases "Matches fp (Fingerprint (readers f ! a))")
    case True
    have "(k, a) \<in> set (p # kf)" using p by simp
    moreover have "rename_loop path fp (p # kf) n f =
         (a, f\<lparr>readers := (readers f)[a := (readers f ! a)\<lparr>Path := path\<rparr>],
               knownFiles := AList.delete k (knownFiles f)\<rparr>)"
      using True p by simp
    ultimately show ?thesis by blast
  next
    case False
    then have "rename_loop path fp (p # kf) n f = rename_loop path fp kf n f" using p by simp
    with Cons.IH show ?thesis by auto
  qed
qed

lemma inv_new_reader:
  assumes "knownFiles_inv f"
  shows "knownFiles_inv (f\<lparr>readers := readers f @ [r],
            knownFiles := AList.update (Path r) (length (readers f)) (knownFiles f)\<rparr>)"
  using assms unfolding knownFiles_inv_iff
  by (auto simp: AList.distinct_update AList.update_conv' nth_append less_Suc_eq split: if_splits)

lemma inv_rename:
  assumes inv: "knownFiles_inv f" and ob: "(oldPath, b) \<in> set (knownFiles f)"
    and nk: "map_of (knownFiles f) path = None"
  shows "knownFiles_inv (f\<lparr>readers := (readers f @ [r])[b := ((readers f @ [r]) ! b)\<lparr>Path := path\<rparr>],
            knownFiles := AList.update path b (AList.delete oldPath (knownFiles f))\<rparr>)"
proof -
  from inv have d: "distinct (map fst (knownFiles f))"
    and p: "\<And>k a. map_of (knownFiles f) k = Some a \<Longrightarrow> a < length (readers f) \<and> Path (readers f ! a) = k"
    unfolding knownFiles_inv_iff by auto
  from ob d have mb: "map_of (knownFiles f) oldPath = Some b" by simp
  from p [OF mb] have b: "b < length (readers f)" and pb: "Path (readers f ! b) = oldPath" by auto
  show ?thesis
    unfolding knownFiles_inv_iff
  proof (intro conjI allI impI)
    show "distinct (map fst (knownFiles (f\<lparr>readers := (readers f @ [r])[b := ((readers f @ [r]) ! b)\<lparr>Path := path\<rparr>],
            knownFiles := AList.update path b (AList.delete oldPath (knownFiles f))\<rparr>)))"
      using d by (simp add: AList.distinct_update AList.distinct_delete)
  next
    fix k a
    assume "map_of (knownFiles (f\<lparr>readers := (readers f @ [r])[b := ((readers f @ [r]) ! b)\<lparr>Path := path\<rparr>],
            knownFiles := AList.update path b (AList.delete oldPath (knownFiles f))\<rparr>)) k = Some a"
    then have m: "((map_of (knownFiles f))(oldPath := None, path \<mapsto> b)) k = Some a"
      by (simp add: AList.update_conv' AList.delete_conv')
    show "a < length (readers (f\<lparr>readers := (readers f @ [r])[b := ((readers f @ [r]) ! b)\<lparr>Path := path\<rparr>],
            knownFiles := AList.update path b (AList.delete oldPath (knownFiles f))\<rparr>))"
      using m p b by (auto simp: less_Suc_eq split: if_splits)
    show "Path (readers (f\<lparr>readers := (readers f @ [r])[b := ((readers f @ [r]) ! b)\<lparr>Path := path\<rparr>],
            knownFiles := AList.update path b (AList.delete oldPath (knownFiles f))\<rparr>) ! a) = k"
    proof (cases "k = path")
      case True
      with m b show ?thesis by simp
    next
      case False
      with m have ko: "k \<noteq> oldPath" and ma: "map_of (knownFiles f) k = Some a" by (auto split: if_splits)
      from p [OF ma] pb ko have "a \<noteq> b" and "a < length (readers f)" and "Path (readers f ! a) = k" by auto
      then show ?thesis by (simp add: nth_append)
    qed
  qed
qed

lemma checkPath_inv:
  assumes inv: "knownFiles_inv f"
  shows "knownFiles_inv (checkPath fs path firstCheck f)"
proof (cases "map_of (knownFiles f) path")
  case (Some reader)
  with inv show ?thesis by (simp add: checkPath_def knownFiles_inv_def)
next
  case None
  show ?thesis
  proof (cases "Initialize fs (fingerprintBytes f) (\<not> firstCheck \<or> startAtBeginning f) (NewFileReader path)")
    case (Inl err)
    with None inv show ?thesis by (simp add: checkPath_def newFileReader_def knownFiles_inv_def)
  next
    case (Inr init)
    then have pi: "Path init = path"
      by (auto simp: Initialize_def NewFileReader_def split: option.splits)
    let ?f1 = "f\<lparr>readers := readers f @ [init]\<rparr>"
    from rename_loop_cases [of path "Fingerprint init" "knownFiles f" "length (readers f)" ?f1]
    show ?thesis
    proof
      assume rl: "rename_loop path (Fingerprint init) (knownFiles f) (length (readers f)) ?f1
          = (length (readers f), ?f1)"
      have "checkPath fs path firstCheck f =
          (f\<lparr>readers := readers f @ [init],
             knownFiles := AList.update (Path init) (length (readers f)) (knownFiles f)\<rparr>)
            \<lparr>reading := reading f @ [length (readers f)]\<rparr>"
        using None Inr rl pi by (simp add: checkPath_def newFileReader_def)
      moreover have "knownFiles_inv ((f\<lparr>readers := readers f @ [init],
             knownFiles := AList.update (Path init) (length (readers f)) (knownFiles f)\<rparr>)
            \<lparr>reading := reading f @ [length (readers f)]\<rparr>)"
        using inv_new_reader [OF inv, of init] by (simp add: knownFiles_inv_def)
      ultimately show ?thesis by simp
    next
      assume "\<exists>oldPath b. (oldPath, b) \<in> set (knownFiles f) \<and>
         rename_loop path (Fingerprint init) (knownFiles f) (length (readers f)) ?f1 =
         (b, ?f1\<lparr>readers := (readers ?f1)[b := (readers ?f1 ! b)\<lparr>Path := path\<rparr>],
               knownFiles := AList.delete oldPath (knownFiles ?f1)\<rparr>)"
      then obtain oldPath b where ob: "(oldPath, b) \<in> set (knownFiles f)"
        and rl: "rename_loop path (Fingerprint init) (knownFiles f) (length (readers f)) ?f1 =
         (b, ?f1\<lparr>readers := (readers ?f1)[b := (readers ?f1 ! b)\<lparr>Path := path\<rparr>],
               knownFiles := AList.delete oldPath (knownFiles ?f1)\<rparr>)" by blast
      have "checkPath fs path firstCheck f =
          (f\<lparr>readers := (readers f @ [init])[b := ((readers f @ [init]) ! b)\<lparr>Path := path\<rparr>],
            knownFiles := AList.update path b (AList.delete oldPath (knownFiles f))\<rparr>)
            \<lparr>reading := reading f @ [b]\<rparr>"
        using None Inr rl by (simp add: checkPath_def newFileReader_def)
      moreover have "knownFiles_inv ((f\<lparr>readers := (readers f @ [init])[b := ((readers f @ [init]) ! b)\<lparr>Path := path\<rparr>],
            knownFiles := AList.update path b (AList.delete oldPath (knownFiles f))\<rparr>)
            \<lparr>reading := reading f @ [b]\<rparr>)"
        using inv_rename [OF inv ob None, of init] by (simp add: knownFiles_inv_def)
      ultimately show ?thesis by simp
    qed
  qed
qed

lemma decode_loop_inv:
  "knownFiles_inv f \<Longrightarrow> knownFiles_inv (snd (decode_loop dec n encoded f))"
proof (induction n arbitrary: encoded f)
  case 0
  then show ?case by simp
next
  case (Suc n)
  show ?case
  proof (cases "decodeReader dec encoded (NewFileReader [])")
    case (Inl err)
    with Suc.prems show ?thesis by simp
  next
    case (Inr p)
    obtain r rest where p: "p = (r, rest)" by (cases p)
    from Suc.IH [OF inv_new_reader [OF Suc.prems, of r], of rest] Inr p show ?thesis by simp
  qed
qed

lemma loadKnownFiles_inv:
  "loadKnownFiles dec built = (None, f) \<Longrightarrow> knownFiles_inv f"
proof -
  assume l: "loadKnownFiles dec built = (None, f)"
  have e: "knownFiles_inv (g\<lparr>knownFiles := []\<rparr>)" for g :: "'a InputOperator"
    by (simp add: knownFiles_inv_def)
  from l show ?thesis
    using decode_loop_inv [OF e]
    by (auto simp: loadKnownFiles_def e split: sum.splits option.splits prod.splits)
      (metis snd_conv)
qed

lemma syncKnownFiles_inv: "knownFiles_inv f \<Longrightarrow> knownFiles_inv (syncKnownFiles enc f)"
  by (simp add: syncKnownFiles_def knownFiles_inv_def split: sum.splits)

lemma ReadToEnd_Path: "Path (ReadToEnd fs r) = Path r"
  by (simp add: ReadToEnd_def split: option.splits)

lemma finish_read_inv:
  assumes "knownFiles_inv f"
  shows "knownFiles_inv (finish_read fs reader f)"
proof -
  have "Path ((readers f)[reader := ReadToEnd fs (readers f ! reader)] ! a) = Path (readers f ! a)"
    if "a < length (readers f)" for a
    using that by (cases "a = reader") (simp_all add: ReadToEnd_Path)
  with assms show ?thesis
    by (auto simp: finish_read_def knownFiles_inv_def list_all_iff)
qed

lemma ranged_inv:
  assumes "knownFiles_inv f" "mset order = mset (knownFiles f)"
  shows "knownFiles_inv (f\<lparr>knownFiles := order\<rparr>)"
proof -
  from assms(2) have s: "set order = set (knownFiles f)" by (rule mset_eq_setD)
  have "mset (map snd order) = mset (map snd (knownFiles f))" using assms(2) by simp
  then have ds: "distinct (map snd order) = distinct (map snd (knownFiles f))"
    by (rule mset_eq_imp_distinct_iff)
  have "mset (map fst order) = mset (map fst (knownFiles f))" using assms(2) by simp
  then have df: "distinct (map fst order) = distinct (map fst (knownFiles f))"
    by (rule mset_eq_imp_distinct_iff)
  from assms(1) s ds df show ?thesis by (simp add: knownFiles_inv_def list_all_iff)
qed

lemma pollForNewFiles_last:
  "pollForNewFiles enc Glob Match (ticks @ [fs]) firstCheck f =
     poll_tick enc Glob Match fs (firstCheck \<and> ticks = [])
       (pollForNewFiles enc Glob Match ticks firstCheck f)"
  by (induction ticks arbitrary: firstCheck f) simp_all

lemma reachable_fold_checkPath:
  "reachable js f \<Longrightarrow> reachable js (foldl (\<lambda>f' match. checkPath fs match fc f') f matches)"
  by (induction matches arbitrary: f) (simp_all add: reachable.checked)

lemma reachable_poll_tick:
  assumes "reachable js f"
  shows "reachable js (poll_tick js Glob Match fs fc f)"
proof -
  have s: "reachable js (syncKnownFiles js f)" using assms by (rule reachable.synced)
  then have "reachable js ((syncKnownFiles js f)
      \<lparr>logs := logs (syncKnownFiles js f) @ [''no files match the configured include patterns'']\<rparr>)"
    by (rule reachable.warned)
  with s show ?thesis
    by (simp add: poll_tick_def Let_def reachable_fold_checkPath)
qed

lemma reachable_pollForNewFiles:
  "reachable js f \<Longrightarrow> reachable js (pollForNewFiles js Glob Match ticks fc f)"
  by (induction ticks arbitrary: fc f) (simp_all add: reachable_poll_tick)

lemma reachable_wait_reads:
  "reachable js f \<Longrightarrow> mset rs \<subseteq># mset (reading f) \<Longrightarrow> reachable js (wait_reads fs rs f)"
proof (induction rs arbitrary: f)
  case Nil
  then show ?case by simp
next
  case (Cons r rs)
  from Cons.prems(2) have "r \<in> set (reading f)"
    by (metis insert_subset_eq_iff mset.simps(2) set_mset_mset mset_subset_eq_insertD)
  with Cons.prems(1) have 1: "reachable js (finish_read fs r f)" by (rule reachable.finished)
  have "mset rs \<subseteq># mset (reading (finish_read fs r f))"
    using Cons.prems(2) by (simp add: finish_read_def insert_subset_eq_iff)
  from Cons.IH [OF 1 this] show ?case by simp
qed

lemma reachable_Stop: "reachable js f \<Longrightarrow> reachable js (Stop js fs f)"
  by (simp add: Stop_def reachable.synced reachable_wait_reads)

lemma encode_decode_readers:
  assumes "json_lossless js"
  shows "\<exists>records. map (encodeReader js) rs = map Inr records \<and>
           encode_readers js rs buf = Inr (buf @ concat records) \<and>
           (\<forall>rest g. decode_loop js (length rs) (concat records @ rest) g
                        = (None, foldl add_decoded g rs))"
proof (induction rs arbitrary: buf)
  case Nil
  show ?case by simp
next
  case (Cons r rs)
  from assms obtain w1 where e1: "encodeReader js r = Inr w1"
    and d1: "\<And>rest. decodeReader js (w1 @ rest) (NewFileReader []) = Inr (r, rest)"
    unfolding json_lossless_def by blast
  from Cons.IH [of "buf @ w1"] obtain ws where m: "map (encodeReader js) rs = map Inr ws"
    and e: "encode_readers js rs (buf @ w1) = Inr ((buf @ w1) @ concat ws)"
    and d: "\<And>rest g. decode_loop js (length rs) (concat ws @ rest) g = (None, foldl add_decoded g rs)"
    by blast
  have "map (encodeReader js) (r # rs) = map Inr (w1 # ws)" using e1 m by simp
  moreover have "encode_readers js (r # rs) buf = Inr (buf @ concat (w1 # ws))" using e1 e by simp
  moreover have "decode_loop js (length (r # rs)) (concat (w1 # ws) @ rest) g
      = (None, foldl add_decoded g (r # rs))" for rest g
    using d1 [of "concat ws @ rest"] d [of rest "add_decoded g r"] by (simp add: add_decoded_def)
  ultimately show ?case by blast
qed

lemma known_add_decoded:
  assumes "list_all (\<lambda>(path, reader). reader < length (readers g)) (knownFiles g)"
  shows "known (add_decoded g r) = (known g)(Path r \<mapsto> r)
         \<and> list_all (\<lambda>(path, reader). reader < length (readers (add_decoded g r))) (knownFiles (add_decoded g r))"
proof -
  have v: "a < length (readers g)" if "map_of (knownFiles g) k = Some a" for k a
    using assms map_of_SomeD [OF that] by (auto simp: list_all_iff)
  have "known (add_decoded g r) k = ((known g)(Path r \<mapsto> r)) k" for k
    using v [of k] by (cases "map_of (knownFiles g) k")
      (auto simp: known_eq add_decoded_def AList.update_conv' nth_append)
  then have "known (add_decoded g r) = (known g)(Path r \<mapsto> r)" by (rule ext)
  moreover have "set (AList.update (Path r) (length (readers g)) (knownFiles g))
      \<subseteq> insert (Path r, length (readers g)) (set (knownFiles g))"
    by (rule set_update_subset)
  then have "list_all (\<lambda>(path, reader). reader < length (readers (add_decoded g r))) (knownFiles (add_decoded g r))"
    using assms by (fastforce simp: add_decoded_def list_all_iff less_Suc_eq)
  ultimately show ?thesis by simp
qed

lemma known_foldl_add_decoded:
  "list_all (\<lambda>(path, reader). reader < length (readers g)) (knownFiles g) \<Longrightarrow>
     known (foldl add_decoded g rs) = foldl (\<lambda>m r. m(Path r \<mapsto> r)) (known g) rs"
proof (induction rs arbitrary: g)
  case Nil
  then show ?case by simp
next
  case (Cons r rs)
  from known_add_decoded [OF Cons.prems, of r] Cons.IH [of "add_decoded g r"]
  show ?case by simp
qed

lemma foldl_upd_map_of:
  "distinct (map fst xs) \<Longrightarrow> foldl (\<lambda>m x. m(fst x \<mapsto> snd x)) m0 xs = m0 ++ map_of xs"
proof (induction xs arbitrary: m0)
  case Nil
  then show ?case by simp
next
  case (Cons x xs)
  obtain k v where x: "x = (k, v)" by (cases x)
  from Cons.prems x have n: "map_of xs k = None" by (simp add: map_of_eq_None_iff)
  have "foldl (\<lambda>m x. m(fst x \<mapsto> snd x)) m0 (x # xs)
      = foldl (\<lambda>m x. m(fst x \<mapsto> snd x)) (m0(k \<mapsto> v)) xs"
    using x by simp
  also have "\<dots> = m0(k \<mapsto> v) ++ map_of xs"
    using Cons.prems by (intro Cons.IH) simp
  also have "\<dots> = m0 ++ map_of (x # xs)"
    using n x by (auto simp: map_add_def fun_eq_iff split: option.splits)
  finally show ?case .
qed

lemma document_json_lossless: "json_lossless document_json"
proof -
  have "unmarshal_FileReader
          [(''path'', JString (Path r)), (''fingerprint'', JString (Fingerprint r)),
           (''offset'', JNumber (Offset r)), (''mtime'', JNumber (ModTime r))] (NewFileReader []) = Inr r"
    for r
    by (cases r) (simp add: unmarshal_field_def NewFileReader_def)
  then show ?thesis
    by (simp add: json_lossless_def document_json_def marshal_FileReader_def)
qed

lemma sync_load_roundtrip_lossless:
  assumes js: "json_lossless js"
    and keys: "distinct (map fst (knownFiles f))"
    and paths: "list_all (\<lambda>(path, reader). Path (readers f ! reader) = path) (knownFiles f)"
    and rd: "readable (persist g)"
    and same: "durable (persist g) = durable (persist (syncKnownFiles js f))"
  shows "\<exists>g' count records.
      encodeInt js (int (length (knownFiles f))) = Inr count \<and>
      map (\<lambda>(path, reader). encodeReader js (readers f ! reader)) (knownFiles f) = map Inr records \<and>
      durable (persist (syncKnownFiles js f)) knownFilesKey = Some (count @ concat records) \<and>
      loadKnownFiles js g = (None, g') \<and> known g' = known f"
proof -
  let ?xs = "map (\<lambda>(path, reader). (path, readers f ! reader)) (knownFiles f)"
  let ?rs = "map (\<lambda>(path, reader). readers f ! reader) (knownFiles f)"
  from js obtain w0 where e0: "encodeInt js (int (length (knownFiles f))) = Inr w0"
    and d0: "\<And>rest. decodeInt js (w0 @ rest) = Inr (int (length (knownFiles f)), rest)"
    unfolding json_lossless_def by blast
  from encode_decode_readers [OF js, of ?rs w0] obtain ws
    where m: "map (encodeReader js) ?rs = map Inr ws"
      and e: "encode_readers js ?rs w0 = Inr (w0 @ concat ws)"
      and d: "\<And>rest h. decode_loop js (length ?rs) (concat ws @ rest) h = (None, foldl add_decoded h ?rs)"
    by blast
  have m': "map (\<lambda>(path, reader). encodeReader js (readers f ! reader)) (knownFiles f) = map Inr ws"
    using m by (simp add: comp_def split_def)
  let ?p = "Sync (Set_key (persist f) knownFilesKey (w0 @ concat ws))"
  have s: "syncKnownFiles js f = f\<lparr>persist := ?p\<rparr>"
    using e0 e by (simp add: syncKnownFiles_def)
  have du: "durable (persist (syncKnownFiles js f)) knownFilesKey = Some (w0 @ concat ws)"
    by (simp add: s Sync_def Set_key_def)
  let ?loaded = "(persist g)\<lparr>cache := durable (persist g)\<rparr>"
  let ?h = "g\<lparr>persist := ?loaded, knownFiles := []\<rparr>"
  have l: "loadKnownFiles js g = (None, foldl add_decoded ?h ?rs)"
    using rd d0 [of "concat ws"] d [of "[]" ?h] du same
    by (simp add: loadKnownFiles_def Load_def Get_def)
  have "known (foldl add_decoded ?h ?rs) = foldl (\<lambda>m r. m(Path r \<mapsto> r)) (known ?h) ?rs"
    by (rule known_foldl_add_decoded) simp
  also have "known ?h = Map.empty" by (simp add: known_def)
  also have "foldl (\<lambda>m r. m(Path r \<mapsto> r)) Map.empty ?rs = foldl (\<lambda>m x. m(fst x \<mapsto> snd x)) Map.empty ?xs"
  proof -
    have "foldl (\<lambda>m r. m(Path r \<mapsto> r)) m0 (map (\<lambda>(path, reader). readers f ! reader) kf)
        = foldl (\<lambda>m x. m(fst x \<mapsto> snd x)) m0 (map (\<lambda>(path, reader). (path, readers f ! reader)) kf)"
      if "list_all (\<lambda>(path, reader). Path (readers f ! reader) = path) kf" for kf m0
      using that by (induction kf arbitrary: m0) auto
    from this [OF paths] show ?thesis .
  qed
  also have "\<dots> = Map.empty ++ map_of ?xs"
    using keys by (intro foldl_upd_map_of) (simp add: comp_def split_def)
  also have "\<dots> = known f" by (simp add: known_def)
  finally have "known (foldl add_decoded ?h ?rs) = known f" .
  with e0 m' du l show ?thesis by blast
qed

subsection \<open>Renames and new files\<close>

text \<open>
  C3. A path that is not a key of \<^verbatim>\<open>knownFiles\<close> is checked, its file can be opened, and
  its fingerprint matches that of a known reader. Then there is a known reader \<open>b\<close>,
  stored under \<open>oldPath\<close>, with a matching fingerprint, such that after \<^verbatim>\<open>checkPath\<close>:
  the reader object \<open>b\<close> is what it was but for its path, which is the new path (so its
  offset is retained); \<open>oldPath\<close> is no longer a key; the new path maps to \<open>b\<close>; the
  reader created for the check (the object at the next free address) is referred to by no
  key; and a read-to-end of \<open>b\<close> has been launched. The first hypothesis says that the
  pointers of the map refer to objects of the store.
\<close>

theorem checkPath_rename:
  assumes valid: "list_all (\<lambda>(k, a). a < length (readers f)) (knownFiles f)"
    and nk: "map_of (knownFiles f) path = None"
    and fl: "fs path = Some fl"
    and match: "list_ex (\<lambda>(k, a). Matches (take (fingerprintBytes f) (content fl)) (Fingerprint (readers f ! a)))
         (knownFiles f)"
  shows "\<exists>oldPath b.
      (oldPath, b) \<in> set (knownFiles f) \<and>
      Matches (take (fingerprintBytes f) (content fl)) (Fingerprint (readers f ! b)) \<and>
      readers (checkPath fs path firstCheck f) ! b = (readers f ! b)\<lparr>Path := path\<rparr> \<and>
      map_of (knownFiles (checkPath fs path firstCheck f)) oldPath = None \<and>
      map_of (knownFiles (checkPath fs path firstCheck f)) path = Some b \<and>
      length (readers f) \<notin> snd ` set (knownFiles (checkPath fs path firstCheck f)) \<and>
      reading (checkPath fs path firstCheck f) = reading f @ [b]"
proof -
  let ?fp = "take (fingerprintBytes f) (content fl)"
  let ?init = "\<lparr>Path = path, Fingerprint = ?fp,
           Offset = (if \<not> firstCheck \<or> startAtBeginning f then 0 else int (length (content fl))),
           ModTime = mtime fl\<rparr>"
  let ?f1 = "f\<lparr>readers := readers f @ [?init]\<rparr>"
  have v: "\<And>k a. (k, a) \<in> set (knownFiles f) \<Longrightarrow> a < length (readers f)"
    using valid by (auto simp: list_all_iff)
  have "list_ex (\<lambda>(k, a). Matches ?fp (Fingerprint (readers ?f1 ! a))) (knownFiles f)"
    using match v by (auto simp: list_ex_iff nth_append)
  from rename_loop_first_match [OF this, of path "length (readers f)"]
  obtain oldPath b where ob: "(oldPath, b) \<in> set (knownFiles f)"
    and m: "Matches ?fp (Fingerprint (readers ?f1 ! b))"
    and rl: "rename_loop path ?fp (knownFiles f) (length (readers f)) ?f1 =
         (b, ?f1\<lparr>readers := (readers ?f1)[b := (readers ?f1 ! b)\<lparr>Path := path\<rparr>],
               knownFiles := AList.delete oldPath (knownFiles ?f1)\<rparr>)"
    by blast
  have b: "b < length (readers f)" using v ob by blast
  have ne: "oldPath \<noteq> path" using ob nk by (auto simp: map_of_eq_None_iff) (metis fst_conv image_eqI)
  let ?kf = "AList.update path b (AList.update path b (AList.delete oldPath (knownFiles f)))"
  let ?f' = "checkPath fs path firstCheck f"
  have kf: "knownFiles ?f' = ?kf"
    and rd: "readers ?f' = (readers f @ [?init])[b := ((readers f @ [?init]) ! b)\<lparr>Path := path\<rparr>]"
    and rg: "reading ?f' = reading f @ [b]"
    using nk rl fl by (simp_all add: checkPath_def newFileReader_def Initialize_Some [of fs path fl])
  have 1: "readers ?f' ! b = (readers f ! b)\<lparr>Path := path\<rparr>"
    using b by (simp add: rd nth_append)
  have 2: "map_of (knownFiles ?f') oldPath = None"
    using ne by (simp add: kf AList.update_conv' AList.delete_conv')
  have 3: "map_of (knownFiles ?f') path = Some b"
    by (simp add: kf AList.update_conv')
  have "set ?kf \<subseteq> insert (path, b) (set (knownFiles f))"
    using set_update_subset [of path b "AList.update path b (AList.delete oldPath (knownFiles f))"]
      set_update_subset [of path b "AList.delete oldPath (knownFiles f)"]
      set_delete_subset [of oldPath "knownFiles f"] by blast
  then have 4: "length (readers f) \<notin> snd ` set (knownFiles ?f')"
    using v b unfolding kf by fastforce
  from m b have m': "Matches ?fp (Fingerprint (readers f ! b))" by (simp add: nth_append)
  from ob m' 1 2 3 4 rg show ?thesis by blast
qed

theorem checkPath_rename_witness:
  "list_all (\<lambda>(k, a). a < length (readers tailing_operator)) (knownFiles tailing_operator)
   \<and> map_of (knownFiles tailing_operator) ''a.1.log'' = None
   \<and> disk_rotated ''a.1.log'' = Some \<lparr>content = ''xy'', mtime = 2\<rparr>
   \<and> list_ex (\<lambda>(k, a). Matches (take (fingerprintBytes tailing_operator) ''xy'')
                 (Fingerprint (readers tailing_operator ! a))) (knownFiles tailing_operator)
   \<and> (\<exists>oldPath b.
        (oldPath, b) \<in> set (knownFiles tailing_operator) \<and>
        readers (checkPath disk_rotated ''a.1.log'' False tailing_operator) ! b
          = (readers tailing_operator ! b)\<lparr>Path := ''a.1.log''\<rparr> \<and>
        map_of (knownFiles (checkPath disk_rotated ''a.1.log'' False tailing_operator)) oldPath = None \<and>
        map_of (knownFiles (checkPath disk_rotated ''a.1.log'' False tailing_operator)) ''a.1.log'' = Some b \<and>
        reading (checkPath disk_rotated ''a.1.log'' False tailing_operator)
          = reading tailing_operator @ [b])"
proof -
  have h1: "list_all (\<lambda>(k, a). a < length (readers tailing_operator)) (knownFiles tailing_operator)"
    by (simp add: tailing_operator_def fresh_operator_def)
  have h2: "map_of (knownFiles tailing_operator) ''a.1.log'' = None"
    by (simp add: tailing_operator_def fresh_operator_def)
  have h3: "disk_rotated ''a.1.log'' = Some \<lparr>content = ''xy'', mtime = 2\<rparr>"
    by (simp add: disk_rotated_def)
  have h4: "list_ex (\<lambda>(k, a). Matches (take (fingerprintBytes tailing_operator)
                 (content \<lparr>content = ''xy'', mtime = 2\<rparr>))
                 (Fingerprint (readers tailing_operator ! a))) (knownFiles tailing_operator)"
    by (simp add: tailing_operator_def fresh_operator_def Matches_def)
  from checkPath_rename [where f = tailing_operator and fs = disk_rotated
      and path = "''a.1.log''" and fl = "\<lparr>content = ''xy'', mtime = 2\<rparr>" and firstCheck = False,
      OF h1 h2 h3 h4] h1 h2 h3 h4
  show ?thesis
    by simp blast
qed

text \<open>
  C4. A path that is not a key of \<^verbatim>\<open>knownFiles\<close> is checked, its file can be opened, and
  its fingerprint matches that of no known reader. After \<^verbatim>\<open>checkPath\<close> the reader known
  under the path is the one created for it, and its offset is the length of the file when
  the check is part of the first poll and \<^verbatim>\<open>startAtBeginning\<close> is not set (\<^verbatim>\<open>start_at\<close> is
  \<^verbatim>\<open>end\<close>), and 0 in every other case.
\<close>

theorem checkPath_new_file_offset:
  assumes nk: "map_of (knownFiles f) path = None"
    and fl: "fs path = Some fl"
    and nomatch: "list_all (\<lambda>(k, a). a < length (readers f) \<and>
           \<not> Matches (take (fingerprintBytes f) (content fl)) (Fingerprint (readers f ! a)))
         (knownFiles f)"
  shows "known (checkPath fs path firstCheck f) path =
     Some \<lparr>Path = path, Fingerprint = take (fingerprintBytes f) (content fl),
           Offset = (if firstCheck \<and> \<not> startAtBeginning f then int (length (content fl)) else 0),
           ModTime = mtime fl\<rparr>"
proof -
  let ?init = "\<lparr>Path = path, Fingerprint = take (fingerprintBytes f) (content fl),
           Offset = (if \<not> firstCheck \<or> startAtBeginning f then 0 else int (length (content fl))),
           ModTime = mtime fl\<rparr>"
  let ?f1 = "f\<lparr>readers := readers f @ [?init]\<rparr>"
  have "list_all (\<lambda>(k, a). \<not> Matches (take (fingerprintBytes f) (content fl)) (Fingerprint (readers ?f1 ! a)))
         (knownFiles f)"
    using nomatch by (auto simp: list_all_iff nth_append)
  then have rl: "rename_loop path (take (fingerprintBytes f) (content fl)) (knownFiles f) (length (readers f)) ?f1
      = (length (readers f), ?f1)"
    by (rule rename_loop_no_match)
  have nfr: "newFileReader fs path firstCheck f =
      Inr (length (readers f), ?f1\<lparr>knownFiles := AList.update path (length (readers f)) (knownFiles f)\<rparr>)"
    using rl fl by (simp add: newFileReader_def Initialize_Some [of fs path fl])
  have "known (checkPath fs path firstCheck f) path = Some ?init"
    using nk by (simp add: checkPath_def nfr known_eq AList.update_conv')
  then show ?thesis by auto
qed

theorem checkPath_new_file_offset_witness:
  "map_of (knownFiles fresh_operator) ''a.log'' = None
   \<and> disk_a ''a.log'' = Some \<lparr>content = ''x'', mtime = 1\<rparr>
   \<and> known (checkPath disk_a ''a.log'' True fresh_operator) ''a.log''
       = Some \<lparr>Path = ''a.log'', Fingerprint = ''x'', Offset = 1, ModTime = 1\<rparr>
   \<and> known (checkPath disk_a ''a.log'' False fresh_operator) ''a.log''
       = Some \<lparr>Path = ''a.log'', Fingerprint = ''x'', Offset = 0, ModTime = 1\<rparr>"
proof -
  have h1: "map_of (knownFiles fresh_operator) ''a.log'' = None"
    by (simp add: fresh_operator_def)
  have h2: "disk_a ''a.log'' = Some \<lparr>content = ''x'', mtime = 1\<rparr>"
    by (simp add: disk_a_def)
  have h3: "list_all (\<lambda>(k, a). a < length (readers fresh_operator) \<and>
           \<not> Matches (take (fingerprintBytes fresh_operator) (content \<lparr>content = ''x'', mtime = 1\<rparr>))
                (Fingerprint (readers fresh_operator ! a)))
         (knownFiles fresh_operator)"
    by (simp add: fresh_operator_def)
  have s: "\<not> startAtBeginning fresh_operator" "fingerprintBytes fresh_operator = 1000"
    by (simp_all add: fresh_operator_def)
  from checkPath_new_file_offset [where f = fresh_operator and fs = disk_a
      and path = "''a.log''" and fl = "\<lparr>content = ''x'', mtime = 1\<rparr>" and firstCheck = True,
      OF h1 h2 h3]
    checkPath_new_file_offset [where f = fresh_operator and fs = disk_a
      and path = "''a.log''" and fl = "\<lparr>content = ''x'', mtime = 1\<rparr>" and firstCheck = False,
      OF h1 h2 h3] h1 h2 s
  show ?thesis by simp
qed

subsection \<open>Persisting the known files\<close>

text \<open>
  C10. If encoding the number of known files returns an error, or encoding one of the
  known readers does, \<^verbatim>\<open>syncKnownFiles\<close> leaves the persister as it was, its staged view
  and its durable storage: the operator changes by the logged message only.
\<close>

theorem syncKnownFiles_error_keeps_persist:
  assumes "isl (encodeInt enc (int (length (knownFiles f)))) \<or>
           list_ex (\<lambda>(path, reader). isl (encodeReader enc (readers f ! reader))) (knownFiles f)"
  shows "persist (syncKnownFiles enc f) = persist f \<and>
         syncKnownFiles enc f = f\<lparr>logs := logs f @ [''Failed to encode known files'']\<rparr>"
proof (cases "encodeInt enc (int (length (knownFiles f)))")
  case (Inl err)
  then show ?thesis by (simp add: syncKnownFiles_def)
next
  case (Inr buf)
  with assms have "list_ex (\<lambda>(path, reader). isl (encodeReader enc (readers f ! reader))) (knownFiles f)"
    by auto
  then have "list_ex (\<lambda>r. isl (encodeReader enc r)) (map (\<lambda>(path, reader). readers f ! reader) (knownFiles f))"
    by (simp add: list_ex_iff split_def)
  then have "isl (encode_readers enc (map (\<lambda>(path, reader). readers f ! reader) (knownFiles f)) buf)"
    by (rule encode_readers_fails)
  with Inr show ?thesis by (auto simp: syncKnownFiles_def split: sum.splits)
qed

theorem syncKnownFiles_error_keeps_persist_witness:
  "list_ex (\<lambda>(path, reader). isl (encodeReader refusing_json (readers tailing_operator ! reader)))
     (knownFiles tailing_operator)
   \<and> persist (syncKnownFiles refusing_json tailing_operator) = persist tailing_operator
   \<and> durable (persist (syncKnownFiles refusing_json tailing_operator)) knownFilesKey = None"
proof -
  have h: "list_ex (\<lambda>(path, reader). isl (encodeReader refusing_json (readers tailing_operator ! reader)))
     (knownFiles tailing_operator)"
    by (simp add: tailing_operator_def fresh_operator_def refusing_json_def)
  then have "isl (encodeInt refusing_json (int (length (knownFiles tailing_operator)))) \<or>
      list_ex (\<lambda>(path, reader). isl (encodeReader refusing_json (readers tailing_operator ! reader)))
        (knownFiles tailing_operator)" by simp
  from syncKnownFiles_error_keeps_persist [OF this] h show ?thesis
    by (simp add: tailing_operator_def fresh_operator_def)
qed

text \<open>
  C6. The claim: a poll tick persists the known readers after processing the batch of
  matched paths, so that what is persisted reflects the reads launched in that tick. The
  first tick of a fresh operator on a disk holding \<^verbatim>\<open>a.log\<close> ends with \<^verbatim>\<open>a.log\<close> known and
  a read-to-end of it launched, while the durable storage holds the encoding of no reader
  at all: persisting the state after the batch would store something else.
\<close>

theorem poll_tick_persisted_misses_batch:
  "known (poll_tick token_json (ls_Glob [''a.log'']) star_match disk_a True fresh_operator) ''a.log''
     = Some \<lparr>Path = ''a.log'', Fingerprint = ''x'', Offset = 1, ModTime = 1\<rparr>
   \<and> reading (poll_tick token_json (ls_Glob [''a.log'']) star_match disk_a True fresh_operator) = [0]
   \<and> durable (persist (poll_tick token_json (ls_Glob [''a.log'']) star_match disk_a True fresh_operator))
       knownFilesKey = Some [TInt 0]
   \<and> durable (persist (syncKnownFiles token_json
         (poll_tick token_json (ls_Glob [''a.log'']) star_match disk_a True fresh_operator)))
       knownFilesKey
     = Some [TInt 1, TReader \<lparr>Path = ''a.log'', Fingerprint = ''x'', Offset = 1, ModTime = 1\<rparr>]"
  by (simp add: poll_tick_def Let_def syncKnownFiles_def token_json_def fresh_operator_def
      Set_key_def Sync_def getMatches_def ls_Glob_def disk_a_def upt_rec checkPath_def
      newFileReader_def Initialize_def NewFileReader_def known_def)

text \<open>
  C6, amended. A poll tick persists the known readers before it processes the batch of
  matched paths: after the tick the persister is what \<^verbatim>\<open>syncKnownFiles\<close> made of it in
  the state the tick began with, and nothing the batch does reaches it; so it is after
  every tick of the poll loop, whose last tick persists the state that the ticks before
  it have left. \<^verbatim>\<open>Stop\<close> persists the state that the wait for all outstanding
  read-to-ends leaves, and no read-to-end is outstanding after it.
\<close>

theorem poll_tick_persists_before_batch:
  "persist (poll_tick enc Glob Match fs firstCheck f) = persist (syncKnownFiles enc f)
   \<and> persist (pollForNewFiles enc Glob Match (ticks @ [fs]) firstCheck f)
       = persist (syncKnownFiles enc (pollForNewFiles enc Glob Match ticks firstCheck f))
   \<and> persist (Stop enc fs f) = persist (syncKnownFiles enc (wait_reads fs (reading f) f))
   \<and> reading (Stop enc fs f) = []"
proof -
  have tick: "persist (poll_tick enc Glob Match fs fc g) = persist (syncKnownFiles enc g)"
    for fc and g :: "'a InputOperator"
    by (simp add: poll_tick_def Let_def fold_checkPath_persist)
  have "reading (Stop enc fs f) = []"
    using fold_remove1_append [of "reading f" "[]"]
    by (simp add: Stop_def syncKnownFiles_reading reading_wait_reads)
  with tick show ?thesis by (simp add: Stop_def pollForNewFiles_last)
qed

text \<open>
  C5. A map of known readers in which every reader is stored under its own path (the
  invariant that C9 shows of every state of a run; the keys of a map are distinct) is
  persisted by \<^verbatim>\<open>syncKnownFiles\<close>. What reaches the durable storage is the number of
  readers followed by one record for each reader, and a record that is decoded is the
  reader that was encoded. \<^verbatim>\<open>loadKnownFiles\<close>, run by any operator on that storage,
  whatever the operator held before, succeeds and leaves it with an equal map: the same
  paths, and under each path a reader equal in path, fingerprint, offset and modification
  time.
\<close>

theorem sync_load_roundtrip:
  assumes keys: "distinct (map fst (knownFiles f))"
    and paths: "list_all (\<lambda>(path, reader). Path (readers f ! reader) = path) (knownFiles f)"
    and rd: "readable (persist g)"
    and same: "durable (persist g) = durable (persist (syncKnownFiles document_json f))"
  shows "\<exists>g'.
      durable (persist (syncKnownFiles document_json f)) knownFilesKey
        = Some (JNumber (int (length (knownFiles f)))
                # map (\<lambda>(path, reader). marshal_FileReader (readers f ! reader)) (knownFiles f)) \<and>
      loadKnownFiles document_json g = (None, g') \<and> known g' = known f \<and>
      decodeReader document_json (marshal_FileReader r # rest) (NewFileReader []) = Inr (r, rest)"
proof -
  have rt: "decodeReader document_json (marshal_FileReader r # rest) (NewFileReader []) = Inr (r, rest)"
    using document_json_lossless
    by (auto simp: json_lossless_def document_json_def)
  from sync_load_roundtrip_lossless [OF document_json_lossless keys paths rd same]
  obtain g' count records where
    c: "encodeInt document_json (int (length (knownFiles f))) = Inr count"
    and r: "map (\<lambda>(path, reader). encodeReader document_json (readers f ! reader)) (knownFiles f)
             = map Inr records"
    and d: "durable (persist (syncKnownFiles document_json f)) knownFilesKey = Some (count @ concat records)"
    and l: "loadKnownFiles document_json g = (None, g')" and k: "known g' = known f"
    by blast
  from c have c': "count = [JNumber (int (length (knownFiles f)))]"
    by (simp add: document_json_def)
  have "map Inr records = (map (\<lambda>x. Inr [marshal_FileReader (readers f ! snd x)]) (knownFiles f)
        :: (error + json_doc list) list)"
    using r by (simp add: document_json_def split_def)
  then have "map Inr records = (map Inr (map (\<lambda>x. [marshal_FileReader (readers f ! snd x)]) (knownFiles f))
        :: (error + json_doc list) list)"
    by simp
  moreover have "inj (Inr :: json_doc list \<Rightarrow> error + json_doc list)"
    by (simp add: inj_on_def)
  ultimately have "records = map (\<lambda>x. [marshal_FileReader (readers f ! snd x)]) (knownFiles f)"
    by (simp only: inj_map_eq_map)
  then have "concat records = map (\<lambda>(path, reader). marshal_FileReader (readers f ! reader)) (knownFiles f)"
    by (simp add: split_def)
  with c' d l k rt show ?thesis by auto
qed

theorem sync_load_roundtrip_witness:
  "distinct (map fst (knownFiles two_files_operator))
   \<and> list_all (\<lambda>(path, reader). Path (readers two_files_operator ! reader) = path)
        (knownFiles two_files_operator)
   \<and> readable (persist restarted_operator)
   \<and> durable (persist restarted_operator)
        = durable (persist (syncKnownFiles document_json two_files_operator))
   \<and> fst (loadKnownFiles document_json restarted_operator) = None
   \<and> known (snd (loadKnownFiles document_json restarted_operator)) = known two_files_operator
   \<and> known two_files_operator ''b.log''
        = Some \<lparr>Path = ''b.log'', Fingerprint = ''yz'', Offset = 7, ModTime = 3\<rparr>
   \<and> known restarted_operator ''b.log'' = None
   \<and> known restarted_operator ''stale.log''
        = Some \<lparr>Path = ''stale.log'', Fingerprint = ''q'', Offset = 9, ModTime = 0\<rparr>
   \<and> known two_files_operator ''stale.log'' = None"
proof -
  have h1: "distinct (map fst (knownFiles two_files_operator))"
    by (simp add: two_files_operator_def)
  have h2: "list_all (\<lambda>(path, reader). Path (readers two_files_operator ! reader) = path)
        (knownFiles two_files_operator)"
    by (simp add: two_files_operator_def)
  have h3: "readable (persist restarted_operator)"
    by (simp add: restarted_operator_def)
  have h4: "durable (persist restarted_operator)
        = durable (persist (syncKnownFiles document_json two_files_operator))"
    by (simp add: restarted_operator_def)
  have k: "known two_files_operator ''b.log''
        = Some \<lparr>Path = ''b.log'', Fingerprint = ''yz'', Offset = 7, ModTime = 3\<rparr>"
    "known restarted_operator ''b.log'' = None"
    "known restarted_operator ''stale.log''
        = Some \<lparr>Path = ''stale.log'', Fingerprint = ''q'', Offset = 9, ModTime = 0\<rparr>"
    "known two_files_operator ''stale.log'' = None"
    by (simp_all add: known_def two_files_operator_def restarted_operator_def)
  from sync_load_roundtrip [OF h1 h2 h3 h4, where r = "NewFileReader []" and rest = "[]"]
  obtain g' where "loadKnownFiles document_json restarted_operator = (None, g')"
    and "known g' = known two_files_operator" by blast
  with h1 h2 h3 h4 k show ?thesis by simp
qed

subsection \<open>The invariant of the known files\<close>

text \<open>
  C9. In every state of a run, that is after \<^verbatim>\<open>loadKnownFiles\<close> and after every
  \<^verbatim>\<open>checkPath\<close> (and after the other steps of the operator), every key of \<^verbatim>\<open>knownFiles\<close>
  is the \<^verbatim>\<open>Path\<close> of the reader stored under it, and no reader object is stored under two
  keys.
\<close>

theorem reachable_knownFiles_inv:
  assumes "reachable js f"
  shows "list_all (\<lambda>(path, reader). Path (readers f ! reader) = path) (knownFiles f)
         \<and> distinct (map snd (knownFiles f))"
proof -
  from assms have "knownFiles_inv f"
  proof (induction rule: reachable.induct)
    case (started built f)
    then show ?case by (rule loadKnownFiles_inv)
  next
    case (synced f)
    then show ?case by (simp add: syncKnownFiles_inv)
  next
    case (warned f message)
    then show ?case by (simp add: knownFiles_inv_def)
  next
    case (checked f fs path firstCheck)
    then show ?case by (simp add: checkPath_inv)
  next
    case (finished f reader fs)
    then show ?case by (simp add: finish_read_inv)
  next
    case (ranged f order)
    then show ?case by (simp add: ranged_inv)
  qed
  then show ?thesis by (auto simp: knownFiles_inv_def list_all_iff)
qed

theorem reachable_knownFiles_inv_witness:
  "reachable token_json (checkPath disk_rotated ''a.1.log'' False
      (finish_read disk_a 0 (checkPath disk_a ''a.log'' True fresh_operator)))
   \<and> list_all (\<lambda>(path, reader).
         Path (readers (checkPath disk_rotated ''a.1.log'' False
            (finish_read disk_a 0 (checkPath disk_a ''a.log'' True fresh_operator))) ! reader) = path)
       (knownFiles (checkPath disk_rotated ''a.1.log'' False
            (finish_read disk_a 0 (checkPath disk_a ''a.log'' True fresh_operator))))
   \<and> distinct (map snd (knownFiles (checkPath disk_rotated ''a.1.log'' False
            (finish_read disk_a 0 (checkPath disk_a ''a.log'' True fresh_operator)))))
   \<and> knownFiles (checkPath disk_rotated ''a.1.log'' False
            (finish_read disk_a 0 (checkPath disk_a ''a.log'' True fresh_operator)))
       = [(''a.1.log'', 0)]"
proof -
  have "loadKnownFiles token_json fresh_operator = (None, fresh_operator)"
    by (simp add: loadKnownFiles_def Load_def Get_def fresh_operator_def)
  then have "reachable token_json fresh_operator" by (rule reachable.started)
  then have r1: "reachable token_json (checkPath disk_a ''a.log'' True fresh_operator)"
    by (rule reachable.checked)
  have "0 \<in> set (reading (checkPath disk_a ''a.log'' True fresh_operator))"
    by (simp add: checkPath_def newFileReader_def Initialize_def NewFileReader_def
        fresh_operator_def disk_a_def)
  with r1 have "reachable token_json (finish_read disk_a 0 (checkPath disk_a ''a.log'' True fresh_operator))"
    by (rule reachable.finished)
  then have r: "reachable token_json (checkPath disk_rotated ''a.1.log'' False
      (finish_read disk_a 0 (checkPath disk_a ''a.log'' True fresh_operator)))"
    by (rule reachable.checked)
  have k: "knownFiles (checkPath disk_rotated ''a.1.log'' False
            (finish_read disk_a 0 (checkPath disk_a ''a.log'' True fresh_operator)))
       = [(''a.1.log'', 0)]"
    by (simp add: checkPath_def newFileReader_def Initialize_def NewFileReader_def
        fresh_operator_def disk_a_def disk_rotated_def finish_read_def ReadToEnd_def Matches_def)
  from reachable_knownFiles_inv [OF r] r k show ?thesis by simp
qed

section \<open>Properties of the copy operator\<close>

lemma copyValue_id: "copyValue v = v"
  by (induction v) (auto intro!: map_idI simp: map_prod_def split: prod.splits)

lemma copyEntry_fields: "Timestamp (copyEntry e) = Timestamp e \<and> Record (copyEntry e) = Record e"
  by (auto simp: copyEntry_def copyMap_def copyValue_id intro!: map_idI)

lemma Start_step_inv:
  assumes inv: "copy_inv p" and st: "Start_step p = Some p'"
  shows "copy_inv p'"
proof (cases "sending p")
  case None
  show ?thesis
  proof (cases "taken (input p) < length (sent (input p))")
    case True
    with None st have p': "p' = p\<lparr>input := (input p)\<lparr>taken := Suc (taken (input p))\<rparr>,
                        sending := Some (sent (input p) ! taken (input p), 0)\<rparr>"
      by (auto simp: Start_step_def split: if_splits)
    from inv None True show ?thesis
      by (simp add: p' copy_inv_def consumed_def take_Suc_conv_app_nth)
  next
    case False
    with None st have "p' = p\<lparr>returned := True\<rparr> \<or> p' = p\<lparr>input := (input p)\<lparr>receiving := True\<rparr>\<rparr>"
      by (auto simp: Start_step_def split: if_splits)
    with inv None show ?thesis by (auto simp: copy_inv_def consumed_def)
  qed
next
  case (Some a)
  obtain e i where a: "a = (e, i)" by (cases a)
  show ?thesis
  proof (cases "i < length (outputs p)")
    case True
    with Some a st have p': "p' = p\<lparr>outputs := (outputs p)
                                [i := send_on (outputs p ! i) (copyEntry e)],
                              sending := Some (e, Suc i)\<rparr>"
      by (auto simp: Start_step_def split: if_splits)
    from inv Some a have ne: "consumed p \<noteq> []" and e: "e = last (consumed p)"
      and outs: "\<And>j. j < length (outputs p) \<Longrightarrow>
          sent (outputs p ! j) = map copyEntry (if j < i then consumed p else butlast (consumed p))"
      and t: "taken (input p) \<le> length (sent (input p))"
      by (simp_all add: copy_inv_def)
    from outs [OF True] have "sent (outputs p ! i) = map copyEntry (butlast (consumed p))"
      by simp
    then have "sent (outputs p ! i) @ [copyEntry e] = map copyEntry (butlast (consumed p) @ [last (consumed p)])"
      using e by simp
    then have s: "sent (outputs p ! i) @ [copyEntry e] = map copyEntry (consumed p)"
      using ne by simp
    have c: "consumed p' = consumed p" by (simp add: p' consumed_def)
    have "sent (outputs p' ! j) = map copyEntry (if j < Suc i then consumed p else butlast (consumed p))"
      if "j < length (outputs p)" for j
    proof (cases "j = i")
      case True
      with that s show ?thesis by (simp add: p' send_on_def)
    next
      case False
      with that outs [OF that] show ?thesis by (auto simp: p')
    qed
    with ne e t True c show ?thesis
      by (simp add: copy_inv_def) (simp add: p')
  next
    case False
    with Some a st have p': "p' = p\<lparr>sending := None\<rparr>"
      by (auto simp: Start_step_def split: if_splits)
    from inv Some a False show ?thesis
      by (simp add: p' copy_inv_def consumed_def)
  qed
qed

lemma runs_inv:
  assumes "runs p0 p" and "started p0"
  shows "copy_inv p"
  using assms
proof (induction rule: runs.induct)
  case begun
  then show ?case by (simp add: started_def copy_inv_def consumed_def list_all_length)
next
  case (stepped p p')
  then show ?case by (simp add: Start_step_inv)
next
  case (upstream_sends p e)
  then have "copy_inv p" by simp
  then show ?case
    by (auto simp: copy_inv_def consumed_def send_on_def split: option.splits prod.splits)
next
  case (upstream_closes p)
  then have "copy_inv p" by simp
  then show ?case by (auto simp: copy_inv_def consumed_def split: option.splits prod.splits)
next
  case (downstream p j)
  then have inv: "copy_inv p" by simp
  have s: "sent (outputs (downstream_receives j p) ! k) = sent (outputs p ! k)"
    if "k < length (outputs p)" for k
    using that by (cases "k = j") (simp_all add: downstream_receives_def)
  have i: "input (downstream_receives j p) = input p" "sending (downstream_receives j p) = sending p"
    "length (outputs (downstream_receives j p)) = length (outputs p)"
    by (simp_all add: downstream_receives_def)
  from inv show ?case
    by (auto simp: copy_inv_def consumed_def i s split: option.splits prod.splits)
next
  case (downstream_waiting p j)
  then have inv: "copy_inv p" by simp
  have s: "sent (outputs (downstream_waits j p) ! k) = sent (outputs p ! k)"
    if "k < length (outputs p)" for k
    using that by (cases "k = j") (simp_all add: downstream_waits_def)
  have i: "input (downstream_waits j p) = input p" "sending (downstream_waits j p) = sending p"
    "length (outputs (downstream_waits j p)) = length (outputs p)"
    by (simp_all add: downstream_waits_def)
  from inv show ?case
    by (auto simp: copy_inv_def consumed_def i s split: option.splits prod.splits)
qed

text \<open>
  An unbuffered output is sent to exactly when its receiver is waiting.
\<close>

lemma unbuffered_send:
  assumes "sending p = Some (e, i)" and "i < length (outputs p)" and "\<not> returned p"
    and "cap (outputs p ! i) = 0"
  shows "Start_step p = None \<longleftrightarrow> \<not> receiving (outputs p ! i)"
  using assms by (simp add: Start_step_def has_room_def)

lemma unbuffered_waiting_output_behind_first:
  "sending (Start_run 10 two_unbuffered_outputs) = Some (entry1, 0)
   \<and> Start_step (Start_run 10 two_unbuffered_outputs) = None
   \<and> receiving (outputs (Start_run 10 two_unbuffered_outputs) ! 1)
   \<and> sent (outputs (Start_run 10 two_unbuffered_outputs) ! 1) = []
   \<and> sent (outputs (Start_run 10 (downstream_waits 0 (Start_run 10 two_unbuffered_outputs))) ! 0)
       = [copyEntry entry1]
   \<and> sent (outputs (Start_run 10 (downstream_waits 0 (Start_run 10 two_unbuffered_outputs))) ! 1)
       = [copyEntry entry1]"
  by (simp add: two_unbuffered_outputs_def Start_step_def has_room_def send_on_def
      downstream_waits_def numeral_nat)

lemma runs_Start_run: "runs p0 p \<Longrightarrow> runs p0 (Start_run n p)"
proof (induction n arbitrary: p)
  case 0
  then show ?case by simp
next
  case (Suc n)
  show ?case
  proof (cases "Start_step p")
    case None
    with Suc.prems show ?thesis by simp
  next
    case (Some p')
    with Suc.prems have "runs p0 p'" by (rule runs.stepped)
    from Suc.IH [OF this] Some show ?thesis by simp
  qed
qed

text \<open>
  C1. The claim: each output is sent an entry equal to the consumed one, with the same
  timestamp, record and labels. The operator with two outputs consumes \<open>entry1\<close>, which
  carries the label \<^verbatim>\<open>decorated\<close>, and sends to both outputs its copy, which has the
  timestamp and the record of \<open>entry1\<close> and no label.
\<close>

theorem copyEntry_drops_labels:
  "consumed (Start_run 4 two_outputs) = [entry1]
   \<and> sent (outputs (Start_run 4 two_outputs) ! 0) = [copyEntry entry1]
   \<and> sent (outputs (Start_run 4 two_outputs) ! 1) = [copyEntry entry1]
   \<and> copyEntry entry1
       = \<lparr>Timestamp = 1, Record = [(''message'', VString ''hello'')], Labels = Map.empty\<rparr>
   \<and> Labels entry1 ''decorated'' = Some ''foo''
   \<and> Labels (copyEntry entry1) ''decorated'' = None"
  by (simp add: two_outputs_def Start_step_def has_room_def send_on_def consumed_def numeral_nat
      copyEntry_def copyMap_def entry1_def)

text \<open>
  C8. The claim: an output whose queue is full does not delay the delivery of the entry to
  the other outputs. The operator with two outputs delivers \<open>entry1\<close> to both; the
  second output takes it from its queue, the first does not. The operator receives
  \<open>entry2\<close> and is blocked in the send to the first output: the second output, whose
  queue is empty, has not been sent \<open>entry2\<close> and is not sent it, the operator cannot
  move.
\<close>

theorem full_first_output_delays_second:
  "sending (Start_run 10 (downstream_receives 1 (Start_run 4 two_outputs))) = Some (entry2, 0)
   \<and> \<not> has_room (outputs (Start_run 10 (downstream_receives 1 (Start_run 4 two_outputs))) ! 0)
   \<and> Start_step (Start_run 10 (downstream_receives 1 (Start_run 4 two_outputs))) = None
   \<and> queued (outputs (Start_run 10 (downstream_receives 1 (Start_run 4 two_outputs))) ! 1) = []
   \<and> has_room (outputs (Start_run 10 (downstream_receives 1 (Start_run 4 two_outputs))) ! 1)
   \<and> sent (outputs (Start_run 10 (downstream_receives 1 (Start_run 4 two_outputs))) ! 1)
       = [copyEntry entry1]"
  by (simp add: two_outputs_def Start_step_def has_room_def send_on_def queued_def
      downstream_receives_def numeral_nat)

text \<open>
  C8, amended. The deliveries of an entry are made one after the other, in the order of
  the outputs. In every state of a run in which the operator is sending the entry \<open>e\<close>
  to output \<open>i\<close> and the send cannot go through (the queue of that output is full and its
  receiver is not waiting in a receive), the operator cannot move; \<open>e\<close>
  is the last entry consumed; the outputs before \<open>i\<close> have been sent the copies of all
  the entries consumed, that of \<open>e\<close> included, and the outputs from \<open>i\<close> on the copies
  of the entries before \<open>e\<close> only.
\<close>

theorem full_output_blocks_later_outputs:
  assumes "started p0" and "runs p0 p"
    and "sending p = Some (e, i)" and "i < length (outputs p)"
    and "\<not> has_room (outputs p ! i)"
  shows "Start_step p = None
    \<and> e = last (consumed p)
    \<and> (\<forall>j < length (outputs p). sent (outputs p ! j) =
            map copyEntry (if j < i then consumed p else butlast (consumed p)))"
proof -
  from runs_inv [OF assms(2) assms(1)] have inv: "copy_inv p" .
  from assms(3-5) have "Start_step p = None" by (simp add: Start_step_def)
  moreover from inv assms(3) have "e = last (consumed p)" by (simp add: copy_inv_def)
  moreover from inv assms(3) have "\<forall>j < length (outputs p). sent (outputs p ! j) =
            map copyEntry (if j < i then consumed p else butlast (consumed p))"
    by (simp add: copy_inv_def)
  ultimately show ?thesis by simp
qed

theorem full_output_blocks_later_outputs_witness:
  "started two_outputs
   \<and> runs two_outputs (Start_run 10 (downstream_receives 1 (Start_run 4 two_outputs)))
   \<and> sending (Start_run 10 (downstream_receives 1 (Start_run 4 two_outputs))) = Some (entry2, 0)
   \<and> \<not> has_room (outputs (Start_run 10 (downstream_receives 1 (Start_run 4 two_outputs))) ! 0)
   \<and> Start_step (Start_run 10 (downstream_receives 1 (Start_run 4 two_outputs))) = None
   \<and> entry2 = last (consumed (Start_run 10 (downstream_receives 1 (Start_run 4 two_outputs))))"
proof -
  let ?p = "Start_run 10 (downstream_receives 1 (Start_run 4 two_outputs))"
  have h1: "started two_outputs" by (simp add: started_def two_outputs_def)
  have "runs two_outputs (Start_run 4 two_outputs)"
    by (rule runs_Start_run) (rule runs.begun)
  moreover have "1 < length (outputs (Start_run 4 two_outputs))"
    and "taken (outputs (Start_run 4 two_outputs) ! 1) < length (sent (outputs (Start_run 4 two_outputs) ! 1))"
    by (simp_all add: two_outputs_def Start_step_def has_room_def send_on_def numeral_nat)
  ultimately have "runs two_outputs (downstream_receives 1 (Start_run 4 two_outputs))"
    by (rule runs.downstream)
  then have h2: "runs two_outputs ?p" by (rule runs_Start_run)
  have h3: "sending ?p = Some (entry2, 0)"
    and h4: "0 < length (outputs ?p)"
    and h5: "\<not> has_room (outputs ?p ! 0)"
    by (simp_all add: two_outputs_def Start_step_def has_room_def send_on_def
        downstream_receives_def numeral_nat)
  from full_output_blocks_later_outputs [OF h1 h2 h3 h4 h5] h1 h2 h3 h5 show ?thesis by simp
qed

subsection \<open>The capacity of the input queue\<close>

text \<open>
  C7. When \<^verbatim>\<open>CopyConfig.Build\<close> succeeds on a configuration that gives no capacity for
  the input queue, the input queue of the built operator, the buffer between it and the
  operators that send to it, has a capacity of 100 entries (and is empty and open); a
  configured capacity is the capacity of the queue.
\<close>

theorem CopyConfig_Build_default_capacity:
  assumes "CopyConfig_Build DefaultPluginConfig_Build c Plugins = Inr p"
  shows "cap (input p) = (case Capacity (InputterConfig c) of None \<Rightarrow> 100 | Some n \<Rightarrow> n)
    \<and> (Capacity (InputterConfig c) = None \<longrightarrow> cap (input p) = 100)
    \<and> queued (input p) = [] \<and> \<not> closed (input p)"
  using assms
  by (auto simp: CopyConfig_Build_def DefaultInputterConfig_Build_def queued_def
      split: sum.splits option.splits)

theorem CopyConfig_Build_default_capacity_witness:
  "CopyConfig_Build (\<lambda>id. Inr ()) copy_config two_sinks
     = Inr \<lparr>input = \<lparr>sent = [], taken = 0, cap = 100, closed = False, receiving = False\<rparr>,
            outputs = [\<lparr>sent = [], taken = 0, cap = 1, closed = False, receiving = False\<rparr>,
                       \<lparr>sent = [], taken = 0, cap = 1, closed = False, receiving = False\<rparr>],
            sending = None, returned = False\<rparr>
   \<and> Capacity (InputterConfig copy_config) = None
   \<and> cap (input \<lparr>input = \<lparr>sent = [], taken = 0, cap = 100, closed = False, receiving = False\<rparr>,
            outputs = [\<lparr>sent = [], taken = 0, cap = 1, closed = False, receiving = False\<rparr>,
                       \<lparr>sent = [], taken = 0, cap = 1, closed = False, receiving = False\<rparr>],
            sending = None, returned = False\<rparr>) = 100"
proof -
  have h: "CopyConfig_Build (\<lambda>id. Inr ()) copy_config two_sinks
     = Inr \<lparr>input = \<lparr>sent = [], taken = 0, cap = 100, closed = False, receiving = False\<rparr>,
            outputs = [\<lparr>sent = [], taken = 0, cap = 1, closed = False, receiving = False\<rparr>,
                       \<lparr>sent = [], taken = 0, cap = 1, closed = False, receiving = False\<rparr>],
            sending = None, returned = False\<rparr>"
    by (simp add: CopyConfig_Build_def DefaultInputterConfig_Build_def copy_config_def two_sinks_def)
  have n: "Capacity (InputterConfig copy_config) = None" by (simp add: copy_config_def)
  from CopyConfig_Build_default_capacity [OF h] h n show ?thesis by simp
qed

end
